theory Spec2Isabelle
  imports Complex_Main "HOL-Library.Char_ord" "HOL-Library.List_Lexorder"
    "HOL-Library.Product_Lexorder"
begin

section \<open>Merger: \<open>GitHubActionsDataManager.merge_dataframes\<close>\<close>

text \<open>
  A RecordSet is the table of hourly observations. Every row has the two identity
  columns \<open>Date\<close> (the text of the CSV cell, compared as Python compares strings: code point
  by code point) and \<open>Timme\<close> (the hour, an integer); the remaining columns pass through the
  merge untouched and are kept as one opaque \<open>payload\<close>. The row labels of the pandas
  index are not part of the model: they are never written to the store
  (\<open>to_csv(..., index=False)\<close>) and the specification's RecordSet has none.
\<close>

record 'v svk_record =
  Date :: string
  Timme :: int
  payload :: 'v

type_synonym 'v RecordSet = "'v svk_record list"

definition key :: "'v svk_record \<Rightarrow> string \<times> int" where
  "key r = (Date r, Timme r)"

text \<open>\<open>df.empty\<close> for a table that has its columns: no rows.\<close>

definition empty :: "'v RecordSet \<Rightarrow> bool" where
  "empty df = (df = [])"

text \<open>\<open>pd.concat([df_existing, df_new], ignore_index=True)\<close>: the rows of the first table,
  then the rows of the second.\<close>

definition concat_frames :: "'v RecordSet \<Rightarrow> 'v RecordSet \<Rightarrow> 'v RecordSet" where
  "concat_frames df_existing df_new = df_existing @ df_new"

text \<open>\<open>drop_duplicates(subset=['Date', 'Timme'], keep='last')\<close>: a row stays exactly when no
  later row has its key; the rows that stay keep their order.\<close>

fun drop_duplicates :: "'v RecordSet \<Rightarrow> 'v RecordSet" where
  "drop_duplicates [] = []"
| "drop_duplicates (r # rs) =
     (if key r \<in> set (map key rs) then drop_duplicates rs else r # drop_duplicates rs)"

text \<open>\<open>sort_values(['Date', 'Timme'])\<close>: ascending in the pair, \<open>Date\<close> first.\<close>

definition sort_values :: "'v RecordSet \<Rightarrow> 'v RecordSet" where
  "sort_values df = sort_key key df"

definition merge_dataframes :: "'v RecordSet \<Rightarrow> 'v RecordSet \<Rightarrow> 'v RecordSet" where
  "merge_dataframes df_existing df_new =
     (if empty df_existing then df_new
      else if empty df_new then df_existing
      else sort_values (drop_duplicates (concat_frames df_existing df_new)))"

text \<open>The record a table holds at a key, as last-write-wins reads it: the last row with
  that key, \<open>None\<close> when the key does not occur.\<close>

fun last_with :: "string \<times> int \<Rightarrow> 'v RecordSet \<Rightarrow> 'v svk_record option" where
  "last_with k [] = None"
| "last_with k (r # rs) =
     (case last_with k rs of Some r' \<Rightarrow> Some r' | None \<Rightarrow> if key r = k then Some r else None)"

text \<open>A canonical RecordSet: ascending in the key, every key once.\<close>

definition canonical :: "'v RecordSet \<Rightarrow> bool" where
  "canonical df = (sorted (map key df) \<and> distinct (map key df))"

text \<open>Three rows used as concrete inputs below: \<open>row_b\<close> and \<open>row_c\<close> share the key
  \<open>(2024-01-02, 1)\<close> and differ in their measurement; \<open>row_a\<close> is an earlier hour.\<close>

definition row_a :: "int svk_record" where
  "row_a = \<lparr>Date = ''2024-01-01'', Timme = 5, payload = 11200\<rparr>"

definition row_b :: "int svk_record" where
  "row_b = \<lparr>Date = ''2024-01-02'', Timme = 1, payload = 9800\<rparr>"

definition row_c :: "int svk_record" where
  "row_c = \<lparr>Date = ''2024-01-02'', Timme = 1, payload = 9750\<rparr>"

subsection \<open>Properties of the merge\<close>

lemma last_with_append:
  "last_with k (xs @ ys) = (case last_with k ys of Some r \<Rightarrow> Some r | None \<Rightarrow> last_with k xs)"
  by (induction xs) (auto split: option.splits)

lemma last_with_None: "last_with k df = None \<longleftrightarrow> k \<notin> set (map key df)"
  by (induction df) (auto split: option.splits)

lemma last_with_key: "last_with k df = Some r \<Longrightarrow> key r = k \<and> r \<in> set df"
  by (induction df) (auto split: option.splits if_splits)

lemma set_drop_duplicates: "r \<in> set (drop_duplicates df) \<longleftrightarrow> last_with (key r) df = Some r"
proof (induction df)
  case Nil
  show ?case by simp
next
  case (Cons x xs)
  show ?case
  proof (cases "last_with (key r) xs")
    case None
    then have k: "key r \<notin> set (map key xs)" by (simp add: last_with_None)
    then have nr: "r \<notin> set xs" by auto
    have nd: "r \<notin> set (drop_duplicates xs)" using Cons None by simp
    have rhs: "last_with (key r) (x # xs) = Some r \<longleftrightarrow> x = r"
      by (auto simp: None)
    show ?thesis
    proof (cases "key x \<in> set (map key xs)")
      case True
      with k have "x \<noteq> r" by auto
      with True nd rhs show ?thesis by auto
    next
      case False
      with nd rhs show ?thesis by auto
    qed
  next
    case (Some a)
    then have a: "key a = key r" "a \<in> set xs" using last_with_key by blast+
    then have kr: "key r \<in> set (map key xs)" by (metis image_eqI set_map)
    have rhs: "last_with (key r) (x # xs) = Some r \<longleftrightarrow> a = r"
      by (auto simp: Some)
    have ih: "r \<in> set (drop_duplicates xs) \<longleftrightarrow> a = r"
      using Cons Some by auto
    show ?thesis
    proof (cases "key x \<in> set (map key xs)")
      case True
      with ih rhs show ?thesis by simp
    next
      case False
      with kr have "key x \<noteq> key r" by auto
      then have "x \<noteq> r" by auto
      with False ih rhs show ?thesis by auto
    qed
  qed
qed

lemma keys_drop_duplicates: "set (map key (drop_duplicates df)) = set (map key df)"
  by (induction df) auto

lemma distinct_drop_duplicates: "distinct (map key (drop_duplicates df))"
proof (induction df)
  case (Cons x xs)
  then show ?case using keys_drop_duplicates [of xs] by auto
qed simp

lemma last_with_distinct:
  "distinct (map key df) \<Longrightarrow> last_with k df = Some r \<longleftrightarrow> r \<in> set df \<and> key r = k"
proof (induction df)
  case Nil
  show ?case by simp
next
  case (Cons x xs)
  then have d: "key x \<notin> set (map key xs)" and ih: "last_with k xs = Some r \<longleftrightarrow> r \<in> set xs \<and> key r = k"
    by auto
  show ?case
  proof (cases "last_with k xs")
    case None
    then have "k \<notin> set (map key xs)" by (simp add: last_with_None)
    then have "\<And>y. y \<in> set xs \<Longrightarrow> key y \<noteq> k" by auto
    then show ?thesis by (auto simp: None)
  next
    case (Some a)
    then have "key a = k" "a \<in> set xs" using last_with_key by blast+
    with d have "key x \<noteq> k" by force
    then show ?thesis using ih by (auto simp: Some)
  qed
qed

lemma canonical_unique:
  assumes "canonical xs" "canonical ys" "set xs = set ys"
  shows "xs = ys"
proof -
  have "map key xs = map key ys"
    using assms by (intro sorted_distinct_set_unique) (auto simp: canonical_def)
  moreover have "inj_on key (set xs \<union> set ys)"
    using assms by (simp add: canonical_def distinct_map)
  ultimately show ?thesis by (simp add: inj_on_map_eq_map)
qed

lemma set_sort_values: "set (sort_values df) = set df"
  by (simp add: sort_values_def)

lemma sorted_sort_values: "sorted (map key (sort_values df))"
  by (simp add: sort_values_def)

lemma distinct_sort_values:
  "distinct (map key df) \<Longrightarrow> distinct (map key (sort_values df))"
  by (simp add: sort_values_def distinct_map)

lemma canonical_sort_values: "distinct (map key df) \<Longrightarrow> canonical (sort_values df)"
  by (simp add: canonical_def sorted_sort_values distinct_sort_values)

lemma canonical_sort_values_id: "canonical df \<Longrightarrow> sort_values df = df"
  by (simp add: canonical_def sort_values_def sort_key_id_if_sorted)

lemma drop_duplicates_id: "distinct (map key df) \<Longrightarrow> drop_duplicates df = df"
  by (induction df) auto

lemma drop_duplicates_Nil: "drop_duplicates df = [] \<longleftrightarrow> df = []"
  using keys_drop_duplicates [of df] by (cases df) (auto simp del: drop_duplicates.simps)

lemma merge_nonempty:
  "\<not> empty e \<Longrightarrow> \<not> empty i \<Longrightarrow>
     merge_dataframes e i = sort_values (drop_duplicates (e @ i))"
  by (simp add: merge_dataframes_def concat_frames_def)

lemma canonical_merge: "\<not> empty e \<Longrightarrow> \<not> empty i \<Longrightarrow> canonical (merge_dataframes e i)"
  by (simp add: merge_nonempty canonical_sort_values distinct_drop_duplicates)

lemma set_merge:
  assumes "\<not> empty e" "\<not> empty i"
  shows "r \<in> set (merge_dataframes e i) \<longleftrightarrow> last_with (key r) (e @ i) = Some r"
  by (simp only: merge_nonempty [OF assms] set_sort_values set_drop_duplicates)

lemma keys_merge:
  assumes "\<not> empty e" "\<not> empty i"
  shows "set (map key (merge_dataframes e i)) = set (map key e) \<union> set (map key i)"
proof -
  have "set (map key (merge_dataframes e i)) = key ` set (drop_duplicates (e @ i))"
    by (simp only: merge_nonempty [OF assms] set_map set_sort_values)
  also have "\<dots> = set (map key (e @ i))"
    using keys_drop_duplicates [of "e @ i"] by (simp only: set_map)
  finally show ?thesis by simp
qed

lemma merge_not_empty:
  assumes "\<not> empty e" "\<not> empty i"
  shows "\<not> empty (merge_dataframes e i)"
proof
  assume "empty (merge_dataframes e i)"
  then have "set (map key (merge_dataframes e i)) = {}" by (simp add: empty_def)
  then have "set (map key e) = {}" by (simp only: keys_merge [OF assms] Un_empty)
  with assms(1) show False by (simp add: empty_def)
qed

lemma last_with_merge:
  assumes "\<not> empty e" "\<not> empty i"
  shows "last_with k (merge_dataframes e i) = last_with k (e @ i)"
proof -
  have d: "distinct (map key (merge_dataframes e i))"
    using canonical_merge [OF assms] by (simp add: canonical_def)
  have eq: "last_with k (merge_dataframes e i) = Some r \<longleftrightarrow> last_with k (e @ i) = Some r" for r
  proof
    assume "last_with k (merge_dataframes e i) = Some r"
    then have "r \<in> set (merge_dataframes e i)" "key r = k"
      using last_with_key by blast+
    then show "last_with k (e @ i) = Some r"
      using set_merge [OF assms, of r] by simp
  next
    assume h: "last_with k (e @ i) = Some r"
    then have kr: "key r = k" using last_with_key by blast
    with h have "r \<in> set (merge_dataframes e i)"
      using set_merge [OF assms, of r] by simp
    with kr show "last_with k (merge_dataframes e i) = Some r"
      using last_with_distinct [OF d, of k r] by simp
  qed
  show ?thesis
  proof (cases "last_with k (e @ i)")
    case None
    show ?thesis
    proof (cases "last_with k (merge_dataframes e i)")
      case (Some a)
      with eq [of a] None show ?thesis by simp
    qed (simp add: None)
  next
    case (Some a)
    with eq [of a] show ?thesis by simp
  qed
qed

lemma merge_merge:
  assumes "\<not> empty e" "\<not> empty i"
  shows "merge_dataframes (merge_dataframes e i) i = merge_dataframes e i"
proof (rule canonical_unique)
  have ne: "\<not> empty (merge_dataframes e i)" by (rule merge_not_empty [OF assms])
  show "canonical (merge_dataframes (merge_dataframes e i) i)"
    by (rule canonical_merge [OF ne assms(2)])
  show "canonical (merge_dataframes e i)" by (rule canonical_merge [OF assms])
  have lw: "last_with k (merge_dataframes e i @ i) = last_with k (e @ i)" for k
    by (cases "last_with k i") (simp_all add: last_with_append last_with_merge [OF assms])
  have "r \<in> set (merge_dataframes (merge_dataframes e i) i) \<longleftrightarrow> r \<in> set (merge_dataframes e i)" for r
    by (simp only: set_merge [OF ne assms(2)] set_merge [OF assms] lw)
  then show "set (merge_dataframes (merge_dataframes e i) i) = set (merge_dataframes e i)"
    by blast
qed

lemma merge_self_canonical:
  assumes "canonical a"
  shows "merge_dataframes a a = a"
proof (cases "empty a")
  case True
  then show ?thesis by (simp add: merge_dataframes_def)
next
  case False
  have d: "distinct (map key a)" using assms by (simp add: canonical_def)
  show ?thesis
  proof (rule canonical_unique)
    show "canonical (merge_dataframes a a)" by (rule canonical_merge [OF False False])
    show "canonical a" by fact
    have "r \<in> set (merge_dataframes a a) \<longleftrightarrow> r \<in> set a" for r
    proof
      assume "r \<in> set (merge_dataframes a a)"
      then have "last_with (key r) (a @ a) = Some r" by (simp only: set_merge [OF False False])
      then show "r \<in> set a" using last_with_key [of "key r" "a @ a" r] by simp
    next
      assume "r \<in> set a"
      then have "last_with (key r) a = Some r" using last_with_distinct [OF d, of "key r" r] by simp
      then have "last_with (key r) (a @ a) = Some r" by (simp add: last_with_append)
      then show "r \<in> set (merge_dataframes a a)" by (simp only: set_merge [OF False False])
    qed
    then show "set (merge_dataframes a a) = set a" by blast
  qed
qed

lemma merge_self_iff: "merge_dataframes b b = b \<longleftrightarrow> canonical b"
proof
  assume h: "merge_dataframes b b = b"
  show "canonical b"
  proof (cases "empty b")
    case True
    then show ?thesis by (simp add: empty_def canonical_def)
  next
    case False
    from canonical_merge [OF False False] h show ?thesis by simp
  qed
qed (rule merge_self_canonical)


subsection \<open>C1: one record per key, the incoming one where both tables have the key\<close>

text \<open>
  C1. For non-empty \<open>existing\<close> and \<open>incoming\<close>, the merged table has every key of either
  input and no other, each exactly once; and a merged record whose key occurs in
  \<open>incoming\<close> is the record \<open>incoming\<close> holds at that key (its last row with the key), so on
  a key of both tables the incoming values replace the existing ones.
\<close>

theorem merge_last_write_wins:
  assumes "\<not> empty existing" and "\<not> empty incoming"
  shows "distinct (map key (merge_dataframes existing incoming))
    \<and> set (map key (merge_dataframes existing incoming))
        = set (map key existing) \<union> set (map key incoming)
    \<and> (\<forall>r \<in> set (merge_dataframes existing incoming).
          key r \<in> set (map key incoming) \<longrightarrow> last_with (key r) incoming = Some r)"
proof (intro conjI ballI impI)
  show "distinct (map key (merge_dataframes existing incoming))"
    using canonical_merge [OF assms] by (simp add: canonical_def)
  show "set (map key (merge_dataframes existing incoming))
        = set (map key existing) \<union> set (map key incoming)"
    by (rule keys_merge [OF assms])
next
  fix r
  assume r: "r \<in> set (merge_dataframes existing incoming)"
    and k: "key r \<in> set (map key incoming)"
  from k obtain a where a: "last_with (key r) incoming = Some a"
    using last_with_None [of "key r" incoming] by (cases "last_with (key r) incoming") simp_all
  from r have "last_with (key r) (existing @ incoming) = Some r"
    by (simp only: set_merge [OF assms])
  with a show "last_with (key r) incoming = Some r"
    by (simp add: last_with_append)
qed

theorem merge_last_write_wins_witness:
  "\<not> empty [row_b, row_a] \<and> \<not> empty [row_c]
   \<and> merge_dataframes [row_b, row_a] [row_c] = [row_a, row_c]
   \<and> distinct (map key (merge_dataframes [row_b, row_a] [row_c]))
   \<and> set (map key (merge_dataframes [row_b, row_a] [row_c]))
        = set (map key [row_b, row_a]) \<union> set (map key [row_c])
   \<and> row_c \<in> set (merge_dataframes [row_b, row_a] [row_c])
   \<and> key row_c \<in> set (map key [row_b, row_a]) \<and> key row_c \<in> set (map key [row_c])
   \<and> last_with (key row_c) [row_c] = Some row_c"
proof -
  have h1: "\<not> empty [row_b, row_a]" by (simp add: empty_def)
  have h2: "\<not> empty [row_c]" by (simp add: empty_def)
  have v: "merge_dataframes [row_b, row_a] [row_c] = [row_a, row_c]" by code_simp
  have m: "row_c \<in> set (merge_dataframes [row_b, row_a] [row_c])" by (simp add: v)
  have k1: "key row_c \<in> set (map key [row_b, row_a])" by code_simp
  have k2: "key row_c \<in> set (map key [row_c])" by simp
  from h1 h2 v m k1 k2 merge_last_write_wins [OF h1 h2] show ?thesis by blast
qed

subsection \<open>C2: the merged table is sorted when both inputs are non-empty\<close>

text \<open>
  C2 as stated fails: with an empty \<open>existing\<close> the function returns \<open>incoming\<close> as it is,
  and an unsorted \<open>incoming\<close> comes back unsorted.
\<close>

theorem merge_empty_existing_unsorted:
  "\<not> sorted (map key (merge_dataframes [] [row_b, row_a]))"
  by code_simp

text \<open>
  C2, amended. When both inputs are non-empty the merged table is sorted non-decreasingly
  in \<open>(Date, Timme)\<close>, whatever the order of the inputs; when an input is empty the other
  one is returned unchanged (so the result is sorted exactly when that input is).
\<close>

theorem merge_sorted_if_both_nonempty:
  "(\<not> empty existing \<and> \<not> empty incoming \<longrightarrow>
       sorted (map key (merge_dataframes existing incoming)))
   \<and> (empty existing \<longrightarrow> merge_dataframes existing incoming = incoming)
   \<and> (\<not> empty existing \<and> empty incoming \<longrightarrow> merge_dataframes existing incoming = existing)"
proof (intro conjI impI)
  assume "\<not> empty existing \<and> \<not> empty incoming"
  then have "canonical (merge_dataframes existing incoming)" by (simp add: canonical_merge)
  then show "sorted (map key (merge_dataframes existing incoming))" by (simp add: canonical_def)
qed (simp_all add: merge_dataframes_def)

theorem merge_sorted_if_both_nonempty_witness:
  "\<not> empty [row_b, row_a] \<and> \<not> empty [row_c]
   \<and> \<not> sorted (map key [row_b, row_a])
   \<and> sorted (map key (merge_dataframes [row_b, row_a] [row_c]))
   \<and> empty ([] :: int RecordSet) \<and> merge_dataframes [] [row_b, row_a] = [row_b, row_a]
   \<and> merge_dataframes [row_b, row_a] [] = [row_b, row_a]"
proof -
  have h: "\<not> empty [row_b, row_a] \<and> \<not> empty [row_c]" by (simp add: empty_def)
  have u: "\<not> sorted (map key [row_b, row_a])" by code_simp
  have e: "empty ([] :: int RecordSet)" by (simp add: empty_def)
  have n: "\<not> empty [row_b, row_a] \<and> empty ([] :: int RecordSet)" by (simp add: empty_def)
  from h u e n merge_sorted_if_both_nonempty [of "[row_b, row_a]" "[row_c]"]
    merge_sorted_if_both_nonempty [of "[]" "[row_b, row_a]"]
    merge_sorted_if_both_nonempty [of "[row_b, row_a]" "[]"]
  show ?thesis by blast
qed

subsection \<open>C3: idempotence\<close>

text \<open>
  C3 as stated fails: \<open>merge(merge(A, B), B) = merge(A, B)\<close> does not hold for an empty
  \<open>A\<close> and a \<open>B\<close> that is unsorted (or has a repeated key). The inner merge returns
  \<open>B\<close> unchanged, the outer one sorts and deduplicates it.
\<close>

theorem merge_not_idempotent_empty_existing:
  "merge_dataframes (merge_dataframes [] [row_b, row_a]) [row_b, row_a]
     \<noteq> merge_dataframes [] [row_b, row_a]"
  by code_simp

text \<open>
  C3, amended. \<open>merge(merge(A, B), B) = merge(A, B)\<close> holds exactly when \<open>A\<close> is non-empty,
  or \<open>B\<close> is empty, or \<open>B\<close> is already deduplicated and sorted; and for every \<open>A\<close> that is
  already deduplicated and sorted, \<open>merge(A, A) = A\<close>.
\<close>

theorem merge_idempotent_iff:
  "(merge_dataframes (merge_dataframes A B) B = merge_dataframes A B
      \<longleftrightarrow> \<not> empty A \<or> empty B \<or> canonical B)
   \<and> (canonical A \<longrightarrow> merge_dataframes A A = A)"
proof (intro conjI impI)
  show "merge_dataframes (merge_dataframes A B) B = merge_dataframes A B
      \<longleftrightarrow> \<not> empty A \<or> empty B \<or> canonical B"
  proof (cases "empty A")
    case True
    then have "merge_dataframes A B = B" by (simp add: merge_dataframes_def)
    moreover have "empty B \<Longrightarrow> canonical B" by (simp add: empty_def canonical_def)
    ultimately show ?thesis using True merge_self_iff [of B] by auto
  next
    case False
    show ?thesis
    proof (cases "empty B")
      case True
      then show ?thesis by (simp add: merge_dataframes_def)
    next
      case nB: False
      show ?thesis using False merge_merge [OF False nB] by simp
    qed
  qed
qed (rule merge_self_canonical)

theorem merge_idempotent_iff_witness:
  "\<not> empty [row_b, row_a]
   \<and> merge_dataframes (merge_dataframes [row_b, row_a] [row_c, row_a]) [row_c, row_a]
       = merge_dataframes [row_b, row_a] [row_c, row_a]
   \<and> canonical [row_a, row_c] \<and> merge_dataframes [row_a, row_c] [row_a, row_c] = [row_a, row_c]"
proof -
  have h: "\<not> empty [row_b, row_a]" by (simp add: empty_def)
  have c: "canonical [row_a, row_c]" by code_simp
  from h c merge_idempotent_iff [of "[row_b, row_a]" "[row_c, row_a]"]
    merge_idempotent_iff [of "[row_a, row_c]"]
  show ?thesis by blast
qed

section \<open>PersistenceGateway: \<open>GitHubActionsDataManager.save_master_data\<close>\<close>

text \<open>
  The files the data manager owns: the master CSV (absent before the first save), the
  directory \<open>data/backups\<close> as a list of named files with their contents (file names are
  unique in a directory), and the state file. A CSV written and read back is taken to give
  the same table. Of the state record, the record count and the date range are modelled;
  the clock reading and the run identifiers taken from the environment are left out.
\<close>

record scraper_state =
  state_total_records :: nat
  state_date_range :: "(string \<times> string) option"

record 'v store =
  master_file :: "'v RecordSet option"
  backup_dir :: "(string \<times> 'v RecordSet) list"
  state_file :: "scraper_state option"

definition fresh_store :: "'v store" where
  "fresh_store = \<lparr>master_file = None, backup_dir = [], state_file = None\<rparr>"

text \<open>\<open>f"backup_{datetime.now().strftime('%Y%m%d_%H%M%S')}.csv"\<close>: the clock reading enters
  \<open>save_master_data\<close> as the formatted stamp, which has one-second resolution.\<close>

definition backup_name :: "string \<Rightarrow> string" where
  "backup_name stamp = ''backup_'' @ stamp @ ''.csv''"

text \<open>\<open>glob("backup_*.csv")\<close> on the names of a directory.\<close>

definition glob_match :: "string \<Rightarrow> bool" where
  "glob_match name =
     (11 \<le> length name \<and> take 7 name = ''backup_'' \<and> drop (length name - 4) name = ''.csv'')"

definition glob_backups :: "(string \<times> 'c) list \<Rightarrow> string list" where
  "glob_backups dir = filter glob_match (map fst dir)"

text \<open>Writing a file replaces a file of the same name; \<open>unlink\<close> removes the file (it is
  only called on names the glob has just returned).\<close>

definition to_csv :: "string \<Rightarrow> 'c \<Rightarrow> (string \<times> 'c) list \<Rightarrow> (string \<times> 'c) list" where
  "to_csv name content dir = (name, content) # filter (\<lambda>f. fst f \<noteq> name) dir"

definition unlink :: "string \<Rightarrow> (string \<times> 'c) list \<Rightarrow> (string \<times> 'c) list" where
  "unlink name dir = filter (\<lambda>f. fst f \<noteq> name) dir"

definition update_state :: "'v RecordSet \<Rightarrow> scraper_state" where
  "update_state df =
     \<lparr>state_total_records = length df,
      state_date_range = (if \<not> empty df
                    then Some (Min (set (map Date df)), Max (set (map Date df))) else None)\<rparr>"

definition save_master_data :: "string \<Rightarrow> 'v RecordSet \<Rightarrow> 'v store \<Rightarrow> 'v store" where
  "save_master_data stamp df st =
     (let st1 =
        (case master_file st of
           None \<Rightarrow> st
         | Some df_existing \<Rightarrow>
             let dir1 = to_csv (backup_name stamp) df_existing (backup_dir st);
                 backups = sort (glob_backups dir1);
                 dir2 = (if length backups > 5
                         then fold unlink (take (length backups - 5) backups) dir1
                         else dir1)
             in st\<lparr>backup_dir := dir2\<rparr>)
      in st1\<lparr>master_file := Some df, state_file := Some (update_state df)\<rparr>)"

text \<open>Consecutive calls \<open>save_master_data(df)\<close>, each with the stamp its clock reading gives.\<close>

fun save_all :: "(string \<times> 'v RecordSet) list \<Rightarrow> 'v store \<Rightarrow> 'v store" where
  "save_all [] st = st"
| "save_all ((stamp, df) # calls) st = save_all calls (save_master_data stamp df st)"

text \<open>A directory read in the order of its file names.\<close>

definition listing :: "(string \<times> 'c) list \<Rightarrow> (string \<times> 'c) list" where
  "listing dir = sort_key fst dir"

subsection \<open>One save, and any number of saves\<close>

lemma fold_unlink: "fold unlink ns dir = filter (\<lambda>f. fst f \<notin> set ns) dir"
proof (induction ns arbitrary: dir)
  case Nil
  show ?case by simp
next
  case (Cons n ns)
  have "fold unlink (n # ns) dir = fold unlink ns (unlink n dir)" by simp
  also have "\<dots> = filter (\<lambda>f. fst f \<notin> set ns) (unlink n dir)" by (rule Cons)
  also have "\<dots> = filter (\<lambda>f. fst f \<notin> set (n # ns)) dir"
    unfolding unlink_def filter_filter by (rule filter_cong) auto
  finally show ?case .
qed

lemma insort_key_snoc: "\<forall>x\<in>set xs. f x < f a \<Longrightarrow> insort_key f a xs = xs @ [a]"
  by (induction xs) auto

lemma map_insort_key: "map f (insort_key f x xs) = insort (f x) (map f xs)"
  by (induction xs) auto

lemma map_sort_key: "map f (sort_key f xs) = sort (map f xs)"
  by (induction xs) (simp_all add: map_insort_key)

lemma filter_not_take:
  "distinct (map f xs) \<Longrightarrow> filter (\<lambda>x. f x \<notin> set (take k (map f xs))) xs = drop k xs"
proof (induction xs arbitrary: k)
  case Nil
  show ?case by simp
next
  case (Cons x xs)
  show ?case
  proof (cases k)
    case 0
    then show ?thesis by simp
  next
    case (Suc j)
    from Cons.prems have nx: "f x \<notin> f ` set xs" and d: "distinct (map f xs)" by auto
    from nx have ne: "\<And>y. y \<in> set xs \<Longrightarrow> f y \<noteq> f x" by (metis image_eqI)
    have "filter (\<lambda>y. f y \<noteq> f x \<and> f y \<notin> set (take j (map f xs))) xs
        = filter (\<lambda>y. f y \<notin> set (take j (map f xs))) xs"
      by (rule filter_cong) (simp_all add: ne)
    then show ?thesis using Cons.IH [OF d, of j] Suc by simp
  qed
qed

lemma distinct_to_csv: "distinct (map fst dir) \<Longrightarrow> distinct (map fst (to_csv name c dir))"
  by (auto simp: to_csv_def distinct_map_filter)

lemma glob_match_backup_name: "glob_match (backup_name stamp)"
  by (simp add: glob_match_def backup_name_def)


lemma backup_name_less:
  assumes "length a = length b" "a < b"
  shows "backup_name a < backup_name b"
proof -
  from assms have "(a @ ''.csv'', b @ ''.csv'') \<in> lexord {(u, v). u < v}"
    by (intro lexord_sufI) (simp_all add: list_less_def)
  then show ?thesis
    unfolding backup_name_def list_less_def by (rule lexord_append_leftI)
qed

lemma listing_props:
  "set (listing dir) = set dir" "length (listing dir) = length dir"
  "distinct (map fst (listing dir)) = distinct (map fst dir)"
  by (simp_all add: listing_def map_sort_key)

lemma save_no_master:
  "master_file st = None \<Longrightarrow>
     backup_dir (save_master_data stamp df st) = backup_dir st
     \<and> master_file (save_master_data stamp df st) = Some df"
  by (simp add: save_master_data_def)

lemma save_master: "master_file (save_master_data stamp df st) = Some df"
  by (simp add: save_master_data_def Let_def split: option.splits)

lemma save_with_master:
  assumes "master_file st = Some m"
  shows "backup_dir (save_master_data stamp df st) =
     (let dir1 = to_csv (backup_name stamp) m (backup_dir st);
          backups = sort (glob_backups dir1)
      in filter (\<lambda>f. fst f \<notin> set (take (length backups - 5) backups)) dir1)"
  using assms by (simp add: save_master_data_def Let_def fold_unlink)

lemma save_listing:
  assumes m: "master_file st = Some m"
    and L: "listing (backup_dir st) = L"
    and d: "distinct (map fst L)"
    and lt: "\<forall>n \<in> set (map fst L). glob_match n \<and> n < backup_name stamp"
  shows "listing (backup_dir (save_master_data stamp df st))
           = drop (length L + 1 - 5) (L @ [(backup_name stamp, m)])"
proof -
  define D where "D = backup_dir st"
  define new where "new = backup_name stamp"
  have setD: "set (map fst D) = set (map fst L)"
    using listing_props(1) [of D] L by (simp add: D_def)
  have lenD: "length D = length L"
    using listing_props(2) [of D] L by (simp add: D_def)
  have ne: "fst f \<noteq> new \<and> fst f < new \<and> glob_match (fst f)" if "f \<in> set D" for f
  proof -
    from that have "fst f \<in> set (map fst D)" by simp
    then have "fst f \<in> set (map fst L)" by (simp only: setD)
    from lt [rule_format, OF this] show ?thesis by (auto simp: new_def)
  qed
  have dir1: "to_csv new m D = (new, m) # D"
    unfolding to_csv_def by (simp add: ne)
  have glob: "glob_backups ((new, m) # D) = new # map fst D"
    unfolding glob_backups_def using ne by (simp add: glob_match_backup_name new_def)
  have V1: "listing ((new, m) # D) = L @ [(new, m)]"
  proof -
    have "listing ((new, m) # D) = insort_key fst (new, m) (listing D)"
      by (simp add: listing_def)
    also have "\<dots> = listing D @ [(new, m)]"
      by (rule insort_key_snoc) (simp add: listing_props(1) ne)
    finally show ?thesis using L by (simp add: D_def)
  qed
  have backups: "sort (new # map fst D) = map fst (L @ [(new, m)])"
    using map_sort_key [of fst "(new, m) # D"] V1 by (simp add: listing_def)
  have dV: "distinct (map fst (L @ [(new, m)]))"
    using d lt by (auto simp: new_def)
  have "listing (backup_dir (save_master_data stamp df st))
      = listing (filter (\<lambda>f. fst f \<notin> set (take (length L + 1 - 5) (map fst (L @ [(new, m)]))))
          ((new, m) # D))"
    using save_with_master [OF m, of stamp df] dir1 glob backups lenD
    by (simp add: D_def [symmetric] new_def [symmetric] Let_def del: map_append)
  also have "\<dots> = filter (\<lambda>f. fst f \<notin> set (take (length L + 1 - 5) (map fst (L @ [(new, m)]))))
          (L @ [(new, m)])"
    unfolding listing_def filter_sort [symmetric] using V1 by (simp add: listing_def)
  also have "\<dots> = drop (length L + 1 - 5) (L @ [(new, m)])"
    by (rule filter_not_take [OF dV])
  finally show ?thesis by (simp add: new_def)
qed

lemma save_at_most_five:
  assumes d: "distinct (map fst (backup_dir st))"
    and n: "length (glob_backups (backup_dir st)) \<le> 5"
  shows "distinct (map fst (backup_dir (save_master_data stamp df st)))
       \<and> length (glob_backups (backup_dir (save_master_data stamp df st))) \<le> 5"
proof (cases "master_file st")
  case None
  with d n show ?thesis by (simp add: save_no_master)
next
  case (Some m)
  define dir1 where "dir1 = to_csv (backup_name stamp) m (backup_dir st)"
  define B where "B = sort (glob_backups dir1)"
  define k where "k = length (glob_backups dir1) - 5"
  define P where "P = (\<lambda>n. n \<notin> set (take k B))"
  have d1: "distinct (map fst dir1)" unfolding dir1_def by (rule distinct_to_csv [OF d])
  have dB: "distinct B" unfolding B_def glob_backups_def using d1 by simp
  have bd: "backup_dir (save_master_data stamp df st) = filter (\<lambda>f. P (fst f)) dir1"
    using save_with_master [OF Some, of stamp df]
    by (simp add: dir1_def [symmetric] Let_def B_def [symmetric] P_def k_def)
  have g: "glob_backups (filter (\<lambda>f. P (fst f)) dir1) = filter P (glob_backups dir1)"
    unfolding glob_backups_def by (simp add: filter_map comp_def conj_commute)
  have "length (filter P (glob_backups dir1)) = length (sort (filter P (glob_backups dir1)))"
    by simp
  also have "\<dots> = length (filter P B)"
    unfolding B_def by (simp only: filter_sort)
  also have "filter P B = drop k B"
    using filter_not_take [of "\<lambda>x. x" B k] dB by (simp add: P_def)
  finally have "length (filter P (glob_backups dir1)) \<le> 5" by (simp add: k_def B_def)
  moreover have "distinct (map fst (filter (\<lambda>f. P (fst f)) dir1))"
    using d1 by (rule distinct_map_filter)
  ultimately show ?thesis by (simp add: bd g)
qed

lemma save_all_at_most_five:
  "distinct (map fst (backup_dir st)) \<Longrightarrow> length (glob_backups (backup_dir st)) \<le> 5 \<Longrightarrow>
     length (glob_backups (backup_dir (save_all calls st))) \<le> 5"
proof (induction calls arbitrary: st)
  case Nil
  then show ?case by simp
next
  case (Cons c calls)
  obtain stamp df where c: "c = (stamp, df)" by (cases c)
  from save_at_most_five [OF Cons.prems, of stamp df] Cons.IH c
  show ?case by simp
qed


subsection \<open>C9: backup retention\<close>

text \<open>
  C9 as stated fails: the backup name has one-second resolution, so consecutive saves
  within one second write the same backup file again and again. Seven such saves, from
  no master file and an empty backup directory, leave one backup, not five.
\<close>

theorem seven_saves_same_second_one_backup:
  "glob_backups (backup_dir (save_all
      [(''20240101_120000'', [row_a]), (''20240101_120000'', [row_b]),
       (''20240101_120000'', [row_c]), (''20240101_120000'', [row_a]),
       (''20240101_120000'', [row_b]), (''20240101_120000'', [row_c]),
       (''20240101_120000'', [row_a])] fresh_store))
   = [''backup_20240101_120000.csv'']"
  by code_simp

text \<open>
  C9, amended. Starting from no master file and an empty backup directory, seven
  consecutive saves whose stamps (from the second save on) are strictly increasing
  15-character clock readings leave exactly five backups: those written by saves three to
  seven, holding the tables of saves two to six. And from that start no sequence of saves,
  whatever its stamps, ever leaves more than five backups.
\<close>

theorem seven_saves_keep_five_latest:
  fixes d1 :: "'v RecordSet"
  assumes inc: "sorted_wrt (<) [t2, t3, t4, t5, t6, t7]"
    and len: "\<forall>t \<in> set [t2, t3, t4, t5, t6, t7]. length t = 15"
  shows "listing (backup_dir (save_all
            [(t1, d1), (t2, d2), (t3, d3), (t4, d4), (t5, d5), (t6, d6), (t7, d7)] fresh_store))
          = [(backup_name t3, d2), (backup_name t4, d3), (backup_name t5, d4),
             (backup_name t6, d5), (backup_name t7, d6)]
      \<and> (\<forall>calls. length (glob_backups (backup_dir (save_all calls (fresh_store :: 'v store)))) \<le> 5)"
proof (intro conjI allI)
  let ?n = backup_name
  have lt: "?n t2 < ?n t3" "?n t2 < ?n t4" "?n t2 < ?n t5" "?n t2 < ?n t6" "?n t2 < ?n t7"
    "?n t3 < ?n t4" "?n t3 < ?n t5" "?n t3 < ?n t6" "?n t3 < ?n t7"
    "?n t4 < ?n t5" "?n t4 < ?n t6" "?n t4 < ?n t7"
    "?n t5 < ?n t6" "?n t5 < ?n t7" "?n t6 < ?n t7"
    using inc len by (simp_all add: backup_name_less)
  note ne = lt [THEN less_imp_neq]
  note gm = glob_match_backup_name
  define s1 where "s1 = save_master_data t1 d1 (fresh_store :: 'v store)"
  define s2 where "s2 = save_master_data t2 d2 s1"
  define s3 where "s3 = save_master_data t3 d3 s2"
  define s4 where "s4 = save_master_data t4 d4 s3"
  define s5 where "s5 = save_master_data t5 d5 s4"
  define s6 where "s6 = save_master_data t6 d6 s5"
  define s7 where "s7 = save_master_data t7 d7 s6"
  have m: "master_file s1 = Some d1" "master_file s2 = Some d2" "master_file s3 = Some d3"
    "master_file s4 = Some d4" "master_file s5 = Some d5" "master_file s6 = Some d6"
    by (simp_all add: s1_def s2_def s3_def s4_def s5_def s6_def save_master)
  have l1: "listing (backup_dir s1) = []"
    by (simp add: s1_def save_no_master fresh_store_def listing_def)
  have l2: "listing (backup_dir s2) = [(?n t2, d1)]"
    unfolding s2_def using save_listing [OF m(1) l1, of t2 d2] by simp
  have l3: "listing (backup_dir s3) = [(?n t2, d1), (?n t3, d2)]"
    unfolding s3_def using save_listing [OF m(2) l2, of t3 d3] lt ne gm by simp
  have l4: "listing (backup_dir s4) = [(?n t2, d1), (?n t3, d2), (?n t4, d3)]"
    unfolding s4_def using save_listing [OF m(3) l3, of t4 d4] lt ne gm by simp
  have l5: "listing (backup_dir s5) = [(?n t2, d1), (?n t3, d2), (?n t4, d3), (?n t5, d4)]"
    unfolding s5_def using save_listing [OF m(4) l4, of t5 d5] lt ne gm by simp
  have l6: "listing (backup_dir s6)
      = [(?n t2, d1), (?n t3, d2), (?n t4, d3), (?n t5, d4), (?n t6, d5)]"
    unfolding s6_def using save_listing [OF m(5) l5, of t6 d6] lt ne gm by simp
  have l7: "listing (backup_dir s7)
      = [(?n t3, d2), (?n t4, d3), (?n t5, d4), (?n t6, d5), (?n t7, d6)]"
    unfolding s7_def using save_listing [OF m(6) l6, of t7 d7] lt ne gm by simp
  then show "listing (backup_dir (save_all
            [(t1, d1), (t2, d2), (t3, d3), (t4, d4), (t5, d5), (t6, d6), (t7, d7)] fresh_store))
          = [(?n t3, d2), (?n t4, d3), (?n t5, d4), (?n t6, d5), (?n t7, d6)]"
    by (simp add: s1_def s2_def s3_def s4_def s5_def s6_def s7_def)
next
  fix calls :: "(string \<times> 'v RecordSet) list"
  show "length (glob_backups (backup_dir (save_all calls (fresh_store :: 'v store)))) \<le> 5"
    by (rule save_all_at_most_five) (simp_all add: fresh_store_def glob_backups_def)
qed


theorem seven_saves_keep_five_latest_witness:
  "sorted_wrt (<) [''20240101_120002'', ''20240101_120003'', ''20240101_120004'',
      ''20240101_120005'', ''20240101_120006'', ''20240101_120007'']
   \<and> length ''20240101_120002'' = 15
   \<and> listing (backup_dir (save_all
        [(''20240101_120001'', [row_a]), (''20240101_120002'', [row_b]),
         (''20240101_120003'', [row_c]), (''20240101_120004'', [row_a, row_b]),
         (''20240101_120005'', [row_a, row_c]), (''20240101_120006'', [row_b, row_a]),
         (''20240101_120007'', [])] fresh_store))
     = [(backup_name ''20240101_120003'', [row_b]), (backup_name ''20240101_120004'', [row_c]),
        (backup_name ''20240101_120005'', [row_a, row_b]),
        (backup_name ''20240101_120006'', [row_a, row_c]),
        (backup_name ''20240101_120007'', [row_b, row_a])]"
proof -
  have h1: "sorted_wrt (<) [''20240101_120002'', ''20240101_120003'', ''20240101_120004'',
      ''20240101_120005'', ''20240101_120006'', ''20240101_120007'']"
    by code_simp
  have h2: "\<forall>t \<in> set [''20240101_120002'', ''20240101_120003'', ''20240101_120004'',
      ''20240101_120005'', ''20240101_120006'', ''20240101_120007'']. length t = 15"
    by simp
  have h3: "length ''20240101_120002'' = 15" by simp
  from h1 h3 seven_saves_keep_five_latest [OF h1 h2] show ?thesis by blast
qed

section \<open>DataQualityChecker: the checks\<close>

text \<open>
  The checker works on whatever \<open>read_csv\<close> returned, so a table here is a list of named
  columns, each with one cell per row, and a column may be absent. A cell is null
  (\<open>NaN\<close>), text, or a number. Column names are unique, as \<open>read_csv\<close> makes them.
\<close>

datatype cell = NaN | Txt string | Num int

type_synonym DataFrame = "(string \<times> cell list) list"

text \<open>\<open>df.columns\<close>, \<open>len(df)\<close> and \<open>df.empty\<close> (no columns or no rows).\<close>

definition columns :: "DataFrame \<Rightarrow> string list" where
  "columns df = map fst df"

definition len :: "DataFrame \<Rightarrow> nat" where
  "len df = (case df of [] \<Rightarrow> 0 | (_, cells) # _ \<Rightarrow> length cells)"

definition df_empty :: "DataFrame \<Rightarrow> bool" where
  "df_empty df = (columns df = [] \<or> len df = 0)"

text \<open>
  Timestamps are nanoseconds since the epoch, \<open>NaT\<close> the missing one. \<open>pd.to_datetime\<close>
  and \<open>strftime('%Y-%m-%d')\<close> belong to pandas and enter the checks as the parameters
  \<open>to_datetime\<close> (applied cell by cell; \<open>None\<close> is the exception it raises on a value it
  cannot convert, which fails the whole conversion) and \<open>strftime\<close>; the results below hold
  for every such pair. The clock reading \<open>datetime.now()\<close> is the parameter \<open>now\<close>.
\<close>

datatype datetime64 = NaT | Timestamp int

definition one_day :: int where
  "one_day = 86400000000000"

text \<open>\<open>pd.date_range(start, end, freq='D')\<close>: from \<open>start\<close> in steps of one day, up to
  \<open>end\<close> inclusive; empty when \<open>end\<close> is before \<open>start\<close>.\<close>

definition date_range :: "int \<Rightarrow> int \<Rightarrow> int list" where
  "date_range start stop =
     map (\<lambda>k. start + int k * one_day) [0 ..< nat ((stop - start) div one_day + 1)]"

text \<open>\<open>Series.unique()\<close>: the distinct values in order of first appearance.\<close>

definition unique :: "'a list \<Rightarrow> 'a list" where
  "unique xs = rev (remdups (rev xs))"

text \<open>\<open>DatetimeIndex.min()\<close> and \<open>max()\<close> skip \<open>NaT\<close> and give \<open>NaT\<close> when nothing is
  left.\<close>

fun stamps :: "datetime64 list \<Rightarrow> int list" where
  "stamps [] = []"
| "stamps (NaT # ds) = stamps ds"
| "stamps (Timestamp t # ds) = t # stamps ds"

definition dt_min :: "datetime64 list \<Rightarrow> datetime64" where
  "dt_min ds = (if stamps ds = [] then NaT else Timestamp (Min (set (stamps ds))))"

definition dt_max :: "datetime64 list \<Rightarrow> datetime64" where
  "dt_max ds = (if stamps ds = [] then NaT else Timestamp (Max (set (stamps ds))))"

text \<open>
  \<open>check_date_continuity\<close>. The \<open>try\<close> block has two ways to fail, both ending in the
  \<open>except\<close> branch that returns the empty list: a cell that \<open>to_datetime\<close> rejects, and
  \<open>date_range\<close> called on \<open>NaT\<close> bounds (a column of nulls only).
  \<open>sorted(set(expected_dates) - set(dates))\<close> is the sorted, duplicate-free list of the
  expected timestamps that are not among the converted ones.
\<close>

definition check_date_continuity ::
  "(cell \<Rightarrow> datetime64 option) \<Rightarrow> (int \<Rightarrow> string) \<Rightarrow> DataFrame \<Rightarrow> string list" where
  "check_date_continuity to_datetime strftime df =
     (if df_empty df then []
      else case map_of df ''Date'' of
        None \<Rightarrow> []
      | Some col \<Rightarrow>
          (case those (map to_datetime (unique col)) of
             None \<Rightarrow> []
           | Some dates \<Rightarrow>
               if length dates = 0 then []
               else (case (dt_min dates, dt_max dates) of
                       (Timestamp min_date, Timestamp max_date) \<Rightarrow>
                         let expected_dates = date_range min_date max_date;
                             missing_dates = sort (remdups
                               (filter (\<lambda>t. Timestamp t \<notin> set dates) expected_dates))
                         in map strftime missing_dates
                     | _ \<Rightarrow> [])))"

text \<open>\<open>check_duplicates\<close>: \<open>duplicated(subset=['Date', 'Timme'], keep=False).sum()\<close> counts
  every row whose pair of cells occurs more than once (nulls equal to nulls).\<close>

definition check_duplicates :: "DataFrame \<Rightarrow> nat" where
  "check_duplicates df =
     (if df_empty df then 0
      else case (map_of df ''Date'', map_of df ''Timme'') of
        (Some dates, Some hours) \<Rightarrow>
          (let keys = zip dates hours
           in length (filter (\<lambda>k. 1 < count_list keys k) keys))
      | _ \<Rightarrow> 0)"

text \<open>\<open>check_missing_values\<close>: the dictionary is built in column order and receives a
  column only when its null count is positive.\<close>

definition isnull_sum :: "cell list \<Rightarrow> nat" where
  "isnull_sum col = length (filter (\<lambda>c. c = NaN) col)"

definition check_missing_values :: "DataFrame \<Rightarrow> (string \<times> nat) list" where
  "check_missing_values df =
     (if df_empty df then []
      else concat (map (\<lambda>col.
             case map_of df col of
               None \<Rightarrow> []
             | Some cells \<Rightarrow>
                 (let null_count = isnull_sum cells
                  in if 0 < null_count then [(col, null_count)] else []))
           (columns df)))"

text \<open>
  \<open>check_data_gaps\<close>. \<open>groupby('Date').size()\<close> drops the rows with a null date and gives
  the groups in ascending order of the date cell (numbers before text); the parameter
  \<open>threshold_hours\<close> is not used by the body, which compares with 24.
\<close>

record gap =
  date :: cell
  hours_found :: int
  hours_missing :: int

fun cell_rank :: "cell \<Rightarrow> nat \<times> int \<times> string" where
  "cell_rank (Num n) = (0, n, [])"
| "cell_rank (Txt s) = (1, 0, s)"
| "cell_rank NaN = (2, 0, [])"

definition groupby_size :: "cell list \<Rightarrow> (cell \<times> nat) list" where
  "groupby_size col =
     map (\<lambda>d. (d, count_list col d))
       (sort_key cell_rank (remdups (filter (\<lambda>c. c \<noteq> NaN) col)))"

definition check_data_gaps :: "int \<Rightarrow> DataFrame \<Rightarrow> gap list" where
  "check_data_gaps threshold_hours df =
     (if df_empty df then []
      else case map_of df ''Date'' of
        None \<Rightarrow> []
      | Some col \<Rightarrow>
          concat (map (\<lambda>(d, count).
              if int count < 24
              then [\<lparr>date = d, hours_found = int count, hours_missing = 24 - int count\<rparr>]
              else [])
            (groupby_size col)))"

text \<open>
  \<open>calculate_coverage\<close>. The percentage is a Python float; the model computes it exactly,
  as a rational, and \<open>round(x, 2)\<close> rounds half to even. For \<open>days_back = 30\<close> the exact
  value \<open>100 * actual / 744\<close> never lies halfway between two hundredths (93 is odd), and
  Python returns the float nearest to the rounded rational.
\<close>

definition round_half_even :: "rat \<Rightarrow> int" where
  "round_half_even x =
     (let f = \<lfloor>x\<rfloor>; r = x - of_int f
      in if r < 1 / 2 then f
         else if 1 / 2 < r then f + 1
         else if even f then f else f + 1)"

definition py_round :: "rat \<Rightarrow> nat \<Rightarrow> rat" where
  "py_round x ndigits = of_int (round_half_even (x * 10 ^ ndigits)) / 10 ^ ndigits"

text \<open>The mask \<open>(df_dates >= start_date) & (df_dates <= end_date)\<close>: a comparison of
  timestamps, the time of day of \<open>now\<close> included; \<open>NaT\<close> compares false.\<close>

definition in_window :: "int \<Rightarrow> int \<Rightarrow> datetime64 \<Rightarrow> bool" where
  "in_window start_date end_date d =
     (case d of NaT \<Rightarrow> False | Timestamp t \<Rightarrow> start_date \<le> t \<and> t \<le> end_date)"

definition calculate_coverage ::
  "(cell \<Rightarrow> datetime64 option) \<Rightarrow> int \<Rightarrow> int \<Rightarrow> DataFrame \<Rightarrow> rat" where
  "calculate_coverage to_datetime now days_back df =
     (if df_empty df then 0
      else case map_of df ''Date'' of
        None \<Rightarrow> 0
      | Some col \<Rightarrow>
          (let end_date = now;
               start_date = end_date - days_back * one_day;
               expected_dates = date_range start_date end_date;
               expected_records = length expected_dates * 24
           in case those (map to_datetime col) of
                None \<Rightarrow> 0
              | Some df_dates \<Rightarrow>
                  (let actual_records = length (filter (in_window start_date end_date) df_dates)
                   in if 0 < expected_records
                      then py_round (of_nat actual_records / of_nat expected_records * 100) 2
                      else 0)))"

text \<open>
  A concrete conversion for the inputs evaluated below: text of the form \<open>YYYY-MM-DD\<close>
  naming a day of the calendar converts to midnight of that day, any other text is
  rejected, a null becomes \<open>NaT\<close> and a number is taken as nanoseconds; \<open>strftime_iso\<close>
  prints the day of a timestamp as \<open>YYYY-MM-DD\<close>.
\<close>

definition digit :: "char \<Rightarrow> int option" where
  "digit c = (if CHR ''0'' \<le> c \<and> c \<le> CHR ''9'' then Some (of_char c - 48) else None)"

definition is_leap :: "int \<Rightarrow> bool" where
  "is_leap y = (y mod 4 = 0 \<and> (y mod 100 \<noteq> 0 \<or> y mod 400 = 0))"

definition days_in_month :: "int \<Rightarrow> int \<Rightarrow> int" where
  "days_in_month y m =
     (if m = 2 then (if is_leap y then 29 else 28)
      else if m = 4 \<or> m = 6 \<or> m = 9 \<or> m = 11 then 30 else 31)"

definition days_from_civil :: "int \<Rightarrow> int \<Rightarrow> int \<Rightarrow> int" where
  "days_from_civil y m d =
     (let y' = (if m \<le> 2 then y - 1 else y);
          era = y' div 400;
          yoe = y' - era * 400;
          doy = (153 * (if 2 < m then m - 3 else m + 9) + 2) div 5 + d - 1;
          doe = yoe * 365 + yoe div 4 - yoe div 100 + doy
      in era * 146097 + doe - 719468)"

definition civil_from_days :: "int \<Rightarrow> int \<times> int \<times> int" where
  "civil_from_days z =
     (let z' = z + 719468;
          era = z' div 146097;
          doe = z' - era * 146097;
          yoe = (doe - doe div 1460 + doe div 36524 - doe div 146096) div 365;
          doy = doe - (365 * yoe + yoe div 4 - yoe div 100);
          mp = (5 * doy + 2) div 153;
          d = doy - (153 * mp + 2) div 5 + 1;
          m = (if mp < 10 then mp + 3 else mp - 9);
          y = yoe + era * 400
      in (if m \<le> 2 then y + 1 else y, m, d))"

definition iso_date :: "string \<Rightarrow> datetime64 option" where
  "iso_date s =
     (case s of
        [y1, y2, y3, y4, s1, m1, m2, s2, d1, d2] \<Rightarrow>
          (case those (map digit [y1, y2, y3, y4, m1, m2, d1, d2]) of
             Some [a, b, c, d, e, f, g, h] \<Rightarrow>
               (let y = 1000 * a + 100 * b + 10 * c + d; m = 10 * e + f; dd = 10 * g + h
                in if s1 = CHR ''-'' \<and> s2 = CHR ''-'' \<and> 1 \<le> m \<and> m \<le> 12
                      \<and> 1 \<le> dd \<and> dd \<le> days_in_month y m
                   then Some (Timestamp (days_from_civil y m dd * one_day)) else None)
           | _ \<Rightarrow> None)
      | _ \<Rightarrow> None)"

definition to_datetime_iso :: "cell \<Rightarrow> datetime64 option" where
  "to_datetime_iso c = (case c of NaN \<Rightarrow> Some NaT | Txt s \<Rightarrow> iso_date s | Num n \<Rightarrow> Some (Timestamp n))"

definition digit_char :: "int \<Rightarrow> char" where
  "digit_char n = char_of (48 + n mod 10)"

definition strftime_iso :: "int \<Rightarrow> string" where
  "strftime_iso t =
     (case civil_from_days (t div one_day) of
        (y, m, d) \<Rightarrow>
          [digit_char (y div 1000), digit_char (y div 100), digit_char (y div 10), digit_char y,
           CHR ''-'', digit_char (m div 10), digit_char m,
           CHR ''-'', digit_char (d div 10), digit_char d])"

text \<open>The dates of a dataset's records: its \<open>Date\<close> column (none when the dataset is empty
  or has no such column).\<close>

definition date_cells :: "DataFrame \<Rightarrow> cell list" where
  "date_cells df =
     (if df_empty df then [] else case map_of df ''Date'' of None \<Rightarrow> [] | Some col \<Rightarrow> col)"

text \<open>Concrete tables used below.\<close>

definition frame_no_date :: DataFrame where
  "frame_no_date = [(''Timme'', [Num 0, Num 1]), (''Prognos (MW)'', [Num 9800, Num 9750])]"

definition frame_nulls :: DataFrame where
  "frame_nulls =
     [(''Date'', [Txt ''2024-01-01'', NaN, NaN]),
      (''Timme'', [Num 0, Num 1, Num 2]),
      (''Prognos (MW)'', [Num 9800, Txt ''abc'', NaN])]"

subsection \<open>Columns\<close>

lemma no_column: "c \<notin> set (columns df) \<Longrightarrow> map_of df c = None"
  by (simp add: columns_def map_of_eq_None_iff)

subsection \<open>C10: absent columns\<close>

text \<open>
  C10. On a non-empty dataset without a \<open>Date\<close> column, \<open>check_date_continuity\<close> and
  \<open>check_data_gaps\<close> return the empty list and \<open>calculate_coverage\<close> returns 0; on a
  dataset without \<open>Date\<close> or without \<open>Timme\<close>, \<open>check_duplicates\<close> returns 0. Each
  check returns a value: none takes an error branch.
\<close>

theorem checks_tolerate_missing_columns:
  "(\<not> df_empty df \<and> ''Date'' \<notin> set (columns df) \<longrightarrow>
      check_date_continuity to_datetime strftime df = []
      \<and> check_data_gaps threshold_hours df = []
      \<and> calculate_coverage to_datetime now days_back df = 0)
   \<and> (''Date'' \<notin> set (columns df) \<or> ''Timme'' \<notin> set (columns df) \<longrightarrow>
        check_duplicates df = 0)"
proof (intro conjI impI)
  assume h: "\<not> df_empty df \<and> ''Date'' \<notin> set (columns df)"
  then have n: "map_of df ''Date'' = None" by (simp add: no_column)
  show "check_date_continuity to_datetime strftime df = []"
    by (simp add: check_date_continuity_def n)
  show "check_data_gaps threshold_hours df = []"
    by (simp add: check_data_gaps_def n)
  show "calculate_coverage to_datetime now days_back df = 0"
    by (simp add: calculate_coverage_def n)
next
  assume "''Date'' \<notin> set (columns df) \<or> ''Timme'' \<notin> set (columns df)"
  then have "map_of df ''Date'' = None \<or> map_of df ''Timme'' = None"
    using no_column [of "''Date''" df] no_column [of "''Timme''" df] by auto
  then show "check_duplicates df = 0"
    by (auto simp: check_duplicates_def split: option.splits)
qed

theorem checks_tolerate_missing_columns_witness:
  "\<not> df_empty frame_no_date \<and> ''Date'' \<notin> set (columns frame_no_date)
   \<and> check_date_continuity to_datetime_iso strftime_iso frame_no_date = []
   \<and> check_data_gaps 24 frame_no_date = []
   \<and> calculate_coverage to_datetime_iso 1706702400000000000 30 frame_no_date = 0
   \<and> check_duplicates frame_no_date = 0"
proof -
  have h: "\<not> df_empty frame_no_date \<and> ''Date'' \<notin> set (columns frame_no_date)"
    by code_simp
  from h checks_tolerate_missing_columns
    [of frame_no_date to_datetime_iso strftime_iso 24 1706702400000000000 30]
  show ?thesis by blast
qed

subsection \<open>C7: missing values\<close>

lemma missing_values_aux:
  "distinct (map fst df') \<Longrightarrow>
   map_of (concat (map (\<lambda>(c, cells).
        if 0 < isnull_sum cells then [(c, isnull_sum cells)] else []) df')) col
   = (case map_of df' col of None \<Rightarrow> None
      | Some cells \<Rightarrow> if 0 < isnull_sum cells then Some (isnull_sum cells) else None)"
proof (induction df')
  case Nil
  show ?case by simp
next
  case (Cons p rest)
  obtain c cells where p: "p = (c, cells)" by (cases p)
  from Cons.prems p have d: "distinct (map fst rest)" and nc: "c \<notin> fst ` set rest" by auto
  from nc have none: "map_of rest c = None" by (simp add: map_of_eq_None_iff)
  show ?case
  proof (cases "c = col")
    case True
    with none Cons.IH [OF d] show ?thesis by (simp add: p)
  next
    case False
    with Cons.IH [OF d] show ?thesis by (simp add: p)
  qed
qed

lemma missing_values_columns:
  assumes "distinct (columns df)"
  shows "concat (map (\<lambda>col. case map_of df col of None \<Rightarrow> []
             | Some cells \<Rightarrow> (let null_count = isnull_sum cells
                  in if 0 < null_count then [(col, null_count)] else [])) (columns df))
       = concat (map (\<lambda>(c, cells).
             if 0 < isnull_sum cells then [(c, isnull_sum cells)] else []) df)"
proof -
  let ?f = "\<lambda>col. case map_of df col of None \<Rightarrow> []
             | Some cells \<Rightarrow> (let null_count = isnull_sum cells
                  in if 0 < null_count then [(col, null_count)] else [])"
  let ?g = "\<lambda>(c, cells). if 0 < isnull_sum cells then [(c, isnull_sum cells)] else []"
  have look: "map_of df (fst p) = Some (snd p)" if "p \<in> set df" for p
    using assms that by (simp add: columns_def)
  have "?f (fst p) = ?g p" if "p \<in> set df" for p
    using look [OF that] by (cases p) (simp add: Let_def)
  then have "map (\<lambda>p. ?f (fst p)) df = map ?g df"
    by (intro map_cong refl)
  then have "map ?f (columns df) = map ?g df"
    by (simp add: columns_def comp_def)
  then show ?thesis by (rule arg_cong)
qed

text \<open>
  C7, amended. For a non-empty dataset, the returned mapping has an entry exactly for the
  columns with at least one null cell, and the entry is the number of null cells of the
  column. A column without nulls has no entry, and a cell that is present but does not
  parse as a number is not counted.
\<close>

theorem missing_values_counts_nulls:
  assumes "\<not> df_empty df" and "distinct (columns df)"
  shows "map_of (check_missing_values df) col
       = (case map_of df col of None \<Rightarrow> None
          | Some cells \<Rightarrow> if 0 < isnull_sum cells then Some (isnull_sum cells) else None)"
proof -
  have "check_missing_values df = concat (map (\<lambda>(c, cells).
             if 0 < isnull_sum cells then [(c, isnull_sum cells)] else []) df)"
    using assms(1) missing_values_columns [OF assms(2)] by (simp add: check_missing_values_def)
  then show ?thesis
    using missing_values_aux [of df col] assms(2) by (simp add: columns_def)
qed

theorem missing_values_counts_nulls_witness:
  "\<not> df_empty frame_nulls \<and> distinct (columns frame_nulls)
   \<and> map_of (check_missing_values frame_nulls) ''Date'' = Some 2
   \<and> map_of (check_missing_values frame_nulls) ''Timme'' = None
   \<and> map_of (check_missing_values frame_nulls) ''Prognos (MW)'' = Some 1"
proof -
  have h1: "\<not> df_empty frame_nulls" by code_simp
  have h2: "distinct (columns frame_nulls)" by code_simp
  have v1: "(case map_of frame_nulls ''Date'' of None \<Rightarrow> None
      | Some cells \<Rightarrow> if 0 < isnull_sum cells then Some (isnull_sum cells) else None) = Some 2"
    by code_simp
  have v2: "(case map_of frame_nulls ''Timme'' of None \<Rightarrow> None
      | Some cells \<Rightarrow> if 0 < isnull_sum cells then Some (isnull_sum cells) else None) = None"
    by code_simp
  have v3: "(case map_of frame_nulls ''Prognos (MW)'' of None \<Rightarrow> None
      | Some cells \<Rightarrow> if 0 < isnull_sum cells then Some (isnull_sum cells) else None) = Some 1"
    by code_simp
  from h1 h2 v1 v2 v3
    missing_values_counts_nulls [OF h1 h2, of "''Date''"]
    missing_values_counts_nulls [OF h1 h2, of "''Timme''"]
    missing_values_counts_nulls [OF h1 h2, of "''Prognos (MW)''"]
  show ?thesis by simp
qed

text \<open>
  C7 as stated fails: the mapping does not give a count for every column present, and
  unparseable entries are not counted. Here both columns are present, \<open>Prognos (MW)\<close> holds
  the text \<open>abc\<close> where a number belongs, and the mapping is empty.
\<close>

theorem missing_values_omits_columns:
  "check_missing_values [(''Date'', [Txt ''2024-01-01'']), (''Prognos (MW)'', [Txt ''abc''])] = []"
  by code_simp

subsection \<open>C5: incomplete days\<close>

lemma set_groupby_size:
  "set (groupby_size col) = {(d, count_list col d) | d. d \<in> set col \<and> d \<noteq> NaN}"
  by (auto simp: groupby_size_def)

lemma distinct_groupby_size: "distinct (map fst (groupby_size col))"
  by (simp add: groupby_size_def comp_def)

lemma gaps_of_groups:
  "distinct (map fst gs) \<Longrightarrow>
   distinct (map date (concat (map (\<lambda>(d, count).
              if int count < 24
              then [\<lparr>date = d, hours_found = int count, hours_missing = 24 - int count\<rparr>]
              else []) gs)))
   \<and> set (concat (map (\<lambda>(d, count).
              if int count < 24
              then [\<lparr>date = d, hours_found = int count, hours_missing = 24 - int count\<rparr>]
              else []) gs))
     = {\<lparr>date = d, hours_found = int c, hours_missing = 24 - int c\<rparr> | d c.
          (d, c) \<in> set gs \<and> c < 24}"
proof (induction gs)
  case Nil
  show ?case by simp
next
  case (Cons g gs)
  obtain d c where g: "g = (d, c)" by (cases g)
  from Cons.prems g have dd: "distinct (map fst gs)" and nd: "d \<notin> fst ` set gs" by auto
  note ih = Cons.IH [OF dd]
  from nd have fresh: "\<And>c'. (d, c') \<notin> set gs" by force
  show ?case
  proof (cases "c < 24")
    case True
    have "\<lparr>date = d, hours_found = int c, hours_missing = 24 - int c\<rparr> \<notin>
          set (concat (map (\<lambda>(d, count).
              if int count < 24
              then [\<lparr>date = d, hours_found = int count, hours_missing = 24 - int count\<rparr>]
              else []) gs)) \<and> d \<notin> date ` set (concat (map (\<lambda>(d, count).
              if int count < 24
              then [\<lparr>date = d, hours_found = int count, hours_missing = 24 - int count\<rparr>]
              else []) gs))"
      using fresh by (auto simp: conjunct2 [OF ih])
    with True ih show ?thesis by (auto simp: g)
  next
    case False
    with ih show ?thesis by (auto simp: g)
  qed
qed

text \<open>
  C5. \<open>check_data_gaps\<close> returns one entry \<open>{date, hours_found: c, hours_missing: 24 - c}\<close>
  for each date of the dataset whose number of records \<open>c\<close> is below 24, no two entries
  for one date, and nothing else: a date with 24 records or more has no entry.
\<close>

theorem data_gaps_exact:
  "distinct (map date (check_data_gaps threshold_hours df))
   \<and> set (check_data_gaps threshold_hours df)
     = {\<lparr>date = d, hours_found = int c, hours_missing = 24 - int c\<rparr> | d c.
          d \<in> set (date_cells df) \<and> d \<noteq> NaN \<and> c = count_list (date_cells df) d \<and> c < 24}"
proof (cases "df_empty df \<or> map_of df ''Date'' = None")
  case True
  then show ?thesis by (auto simp: check_data_gaps_def date_cells_def)
next
  case False
  then obtain col where col: "map_of df ''Date'' = Some col" and ne: "\<not> df_empty df" by auto
  have cg: "check_data_gaps threshold_hours df = concat (map (\<lambda>(d, count).
              if int count < 24
              then [\<lparr>date = d, hours_found = int count, hours_missing = 24 - int count\<rparr>]
              else []) (groupby_size col))"
    by (simp add: check_data_gaps_def col ne)
  have dc: "date_cells df = col" by (simp add: date_cells_def col ne)
  have "{\<lparr>date = d, hours_found = int c, hours_missing = 24 - int c\<rparr> | d c.
          (d, c) \<in> set (groupby_size col) \<and> c < 24}
      = {\<lparr>date = d, hours_found = int c, hours_missing = 24 - int c\<rparr> | d c.
          d \<in> set col \<and> d \<noteq> NaN \<and> c = count_list col d \<and> c < 24}"
    by (auto simp: set_groupby_size)
  with gaps_of_groups [OF distinct_groupby_size, of col] show ?thesis
    by (simp add: cg dc)
qed

subsection \<open>C4: missing dates\<close>

text \<open>Two tables for the evaluations below, and a clock reading
  (2024-01-31 12:00:00, in nanoseconds).\<close>

definition frame_feb :: DataFrame where
  "frame_feb =
     [(''Date'', [Txt ''2024-02-27'', Txt ''2024-03-02'', NaN, Txt ''2024-02-27'']),
      (''Timme'', [Num 0, Num 0, Num 1, Num 1])]"

definition frame_jan :: DataFrame where
  "frame_jan =
     [(''Date'', [Txt ''2024-01-30'', Txt ''2024-01-30'', Txt ''2023-12-01'', NaN]),
      (''Timme'', [Num 0, Num 1, Num 0, Num 2])]"

definition noon_2024_01_31 :: int where
  "noon_2024_01_31 = 1706702400000000000"

lemma those_map_Some:
  "those (map f xs) = Some ys \<longleftrightarrow> (\<forall>x\<in>set xs. f x \<noteq> None) \<and> ys = map (\<lambda>x. the (f x)) xs"
proof (induction xs arbitrary: ys)
  case Nil
  show ?case by auto
next
  case (Cons x xs)
  show ?case
  proof (cases "f x")
    case None
    then show ?thesis by auto
  next
    case (Some y)
    show ?thesis
    proof (cases "those (map f xs)")
      case None
      with Cons [of "map (\<lambda>x. the (f x)) xs"] Some show ?thesis by auto
    next
      case (Some zs)
      with Cons [of zs] \<open>f x = Some y\<close> show ?thesis by auto
    qed
  qed
qed

lemma those_map_None: "those (map f xs) = None \<longleftrightarrow> (\<exists>x\<in>set xs. f x = None)"
proof -
  have e: "(\<exists>ys. those (map f xs) = Some ys) = (\<forall>x\<in>set xs. f x \<noteq> None)"
    by (simp add: those_map_Some)
  show ?thesis
  proof (cases "those (map f xs)")
    case None
    then show ?thesis using e by auto
  next
    case (Some a)
    then show ?thesis using e by auto
  qed
qed

lemma set_unique: "set (unique xs) = set xs"
  by (simp add: unique_def)

lemma set_stamps: "set (stamps ds) = {t. Timestamp t \<in> set ds}"
  by (induction ds rule: stamps.induct) auto

lemma one_day_pos: "0 < one_day"
  by (simp add: one_day_def)

lemma strict_sorted_date_range: "sorted_wrt (<) (date_range lo hi)"
  unfolding date_range_def sorted_wrt_map
  by (rule sorted_wrt_mono_rel [OF _ sorted_wrt_upt]) (simp add: one_day_pos)

lemma div_mult_le_int: "0 < (d::int) \<Longrightarrow> (a div d) * d \<le> a"
  using div_mult_mod_eq [of a d] pos_mod_sign [of d a] by linarith

lemma le_div_int: "0 < (d::int) \<Longrightarrow> q * d \<le> a \<Longrightarrow> q \<le> a div d"
  using zdiv_mono1 [of "q * d" a d] by simp

lemma set_date_range:
  "set (date_range lo hi) = {t. lo \<le> t \<and> t \<le> hi \<and> one_day dvd (t - lo)}"
proof (intro set_eqI iffI)
  fix t
  assume "t \<in> set (date_range lo hi)"
  then obtain k where k: "k < nat ((hi - lo) div one_day + 1)" and t: "t = lo + int k * one_day"
    by (auto simp: date_range_def)
  from k have "int k \<le> (hi - lo) div one_day" by linarith
  then have "int k * one_day \<le> ((hi - lo) div one_day) * one_day"
    using one_day_pos by (simp add: mult_right_mono)
  also have "\<dots> \<le> hi - lo"
    by (rule div_mult_le_int [OF one_day_pos])
  finally have "t \<le> hi" using t by simp
  moreover have "lo \<le> t" using t one_day_pos by simp
  moreover have "one_day dvd (t - lo)" using t by simp
  ultimately show "t \<in> {t. lo \<le> t \<and> t \<le> hi \<and> one_day dvd (t - lo)}" by simp
next
  fix t
  assume "t \<in> {t. lo \<le> t \<and> t \<le> hi \<and> one_day dvd (t - lo)}"
  then have lo: "lo \<le> t" and hi: "t \<le> hi" and dv: "one_day dvd (t - lo)" by auto
  from dv obtain q where q: "t - lo = q * one_day" by (auto simp: dvd_def mult.commute)
  from lo q have "0 \<le> q * one_day" by linarith
  then have q0: "0 \<le> q" using one_day_pos by (simp add: zero_le_mult_iff)
  have "q * one_day \<le> hi - lo" using q hi by linarith
  then have "q \<le> (hi - lo) div one_day"
    by (rule le_div_int [OF one_day_pos])
  with q0 have n: "nat q < nat ((hi - lo) div one_day + 1)" by linarith
  have teq: "t = lo + int (nat q) * one_day" using q q0 by simp
  from n have "nat q \<in> set [0 ..< nat ((hi - lo) div one_day + 1)]" by simp
  then have "lo + int (nat q) * one_day
      \<in> (\<lambda>k. lo + int k * one_day) ` set [0 ..< nat ((hi - lo) div one_day + 1)]"
    by (rule imageI)
  then show "t \<in> set (date_range lo hi)"
    unfolding date_range_def set_map by (subst teq) assumption
qed

lemma sort_remdups_strict:
  "sorted_wrt (<) (xs :: int list) \<Longrightarrow> sort (remdups (filter P xs)) = filter P xs"
proof -
  assume s: "sorted_wrt (<) xs"
  then have "sorted_wrt (<) (filter P xs)" by (rule sorted_wrt_filter)
  then have "sorted (filter P xs)" "distinct (filter P xs)"
    by (simp_all add: strict_sorted_iff del: distinct_filter)
  then show ?thesis by (simp add: sorted_sort_id del: distinct_filter)
qed

lemma strict_sorted_list_of_set:
  "sorted_wrt (<) (xs :: int list) \<Longrightarrow> sorted_list_of_set (set xs) = xs"
  by (simp add: strict_sorted_iff sorted_list_of_set.idem_if_sorted_distinct)


text \<open>
  C4 as stated fails: one entry of the \<open>Date\<close> column that does not convert makes
  \<open>to_datetime\<close> raise, and the \<open>except\<close> branch returns the empty list, although the
  column has parseable dates and a day between them is absent. Without the entry
  \<open>foo\<close> the same column reports 2024-01-02.
\<close>

theorem date_continuity_unparseable_entry:
  "check_date_continuity to_datetime_iso strftime_iso
     [(''Date'', [Txt ''2024-01-01'', Txt ''foo'', Txt ''2024-01-03''])] = []
   \<and> to_datetime_iso (Txt ''2024-01-01'') = Some (Timestamp 1704067200000000000)
   \<and> to_datetime_iso (Txt ''2024-01-03'') = Some (Timestamp 1704240000000000000)
   \<and> to_datetime_iso (Txt ''foo'') = None
   \<and> check_date_continuity to_datetime_iso strftime_iso
       [(''Date'', [Txt ''2024-01-01'', Txt ''2024-01-03''])] = [''2024-01-02'']"
  by code_simp

text \<open>
  C4, amended. For a non-empty dataset whose \<open>Date\<close> entries all convert (a null converts
  to \<open>NaT\<close>) and give at least one date, \<open>check_date_continuity\<close> returns, formatted by
  \<open>strftime\<close> and in ascending order, exactly the days from the minimum to the maximum
  observed date, both included, that are not observed. If some entry does not convert, or
  the dataset is empty, it returns the empty list.
\<close>

theorem date_continuity_missing_dates:
  "(\<not> df_empty df \<and> map_of df ''Date'' = Some col \<and> those (map to_datetime col) = Some ds
      \<and> stamps ds \<noteq> [] \<longrightarrow>
      check_date_continuity to_datetime strftime df =
        map strftime (sorted_list_of_set
          {t. Min (set (stamps ds)) \<le> t \<and> t \<le> Max (set (stamps ds))
              \<and> one_day dvd (t - Min (set (stamps ds))) \<and> t \<notin> set (stamps ds)}))
   \<and> (\<not> df_empty df \<and> map_of df ''Date'' = Some col \<and> those (map to_datetime col) = None \<longrightarrow>
        check_date_continuity to_datetime strftime df = [])
   \<and> (df_empty df \<longrightarrow> check_date_continuity to_datetime strftime df = [])"
proof (intro conjI impI)
  assume h: "\<not> df_empty df \<and> map_of df ''Date'' = Some col
      \<and> those (map to_datetime col) = Some ds \<and> stamps ds \<noteq> []"
  then have ne: "\<not> df_empty df" and col: "map_of df ''Date'' = Some col"
    and ds: "those (map to_datetime col) = Some ds" and st: "stamps ds \<noteq> []" by auto
  define ds' where "ds' = map (\<lambda>c. the (to_datetime c)) (unique col)"
  from ds have conv: "\<forall>c\<in>set col. to_datetime c \<noteq> None"
    and dsv: "ds = map (\<lambda>c. the (to_datetime c)) col"
    by (simp_all add: those_map_Some)
  have u: "those (map to_datetime (unique col)) = Some ds'"
    using conv by (simp add: those_map_Some set_unique ds'_def)
  have sets: "set ds' = set ds" by (simp add: ds'_def dsv set_unique)
  have ss: "set (stamps ds') = set (stamps ds)" by (simp add: set_stamps sets)
  from st ss have st': "stamps ds' \<noteq> []" by (metis set_empty)
  from st' have len: "length ds' \<noteq> 0" by (cases ds') auto
  define lo where "lo = Min (set (stamps ds))"
  define hi where "hi = Max (set (stamps ds))"
  have mn: "dt_min ds' = Timestamp lo" and mx: "dt_max ds' = Timestamp hi"
    using st' by (simp_all add: dt_min_def dt_max_def ss lo_def hi_def)
  let ?P = "\<lambda>t. Timestamp t \<notin> set ds'"
  have res: "check_date_continuity to_datetime strftime df
      = map strftime (sort (remdups (filter ?P (date_range lo hi))))"
    using ne len by (simp add: check_date_continuity_def col u mn mx)
  have "sort (remdups (filter ?P (date_range lo hi))) = filter ?P (date_range lo hi)"
    by (rule sort_remdups_strict [OF strict_sorted_date_range])
  also have "\<dots> = sorted_list_of_set (set (filter ?P (date_range lo hi)))"
    by (rule strict_sorted_list_of_set [symmetric])
       (rule sorted_wrt_filter [OF strict_sorted_date_range])
  also have "set (filter ?P (date_range lo hi))
      = {t. lo \<le> t \<and> t \<le> hi \<and> one_day dvd (t - lo) \<and> t \<notin> set (stamps ds)}"
    by (auto simp: set_date_range set_stamps sets)
  finally show "check_date_continuity to_datetime strftime df =
        map strftime (sorted_list_of_set
          {t. Min (set (stamps ds)) \<le> t \<and> t \<le> Max (set (stamps ds))
              \<and> one_day dvd (t - Min (set (stamps ds))) \<and> t \<notin> set (stamps ds)})"
    by (simp add: res lo_def hi_def)
next
  assume h: "\<not> df_empty df \<and> map_of df ''Date'' = Some col \<and> those (map to_datetime col) = None"
  then have "\<exists>c\<in>set col. to_datetime c = None" by (simp add: those_map_None)
  then have "those (map to_datetime (unique col)) = None"
    by (simp add: those_map_None set_unique)
  with h show "check_date_continuity to_datetime strftime df = []"
    by (simp add: check_date_continuity_def)
next
  assume "df_empty df"
  then show "check_date_continuity to_datetime strftime df = []"
    by (simp add: check_date_continuity_def)
qed


theorem date_continuity_missing_dates_witness:
  "\<not> df_empty frame_feb
   \<and> map_of frame_feb ''Date''
       = Some [Txt ''2024-02-27'', Txt ''2024-03-02'', NaN, Txt ''2024-02-27'']
   \<and> those (map to_datetime_iso [Txt ''2024-02-27'', Txt ''2024-03-02'', NaN, Txt ''2024-02-27''])
       = Some [Timestamp 1708992000000000000, Timestamp 1709337600000000000, NaT,
               Timestamp 1708992000000000000]
   \<and> stamps [Timestamp 1708992000000000000, Timestamp 1709337600000000000, NaT,
               Timestamp 1708992000000000000] \<noteq> []
   \<and> check_date_continuity to_datetime_iso strftime_iso frame_feb
       = [''2024-02-28'', ''2024-02-29'', ''2024-03-01'']
   \<and> check_date_continuity to_datetime_iso strftime_iso frame_feb
       = map strftime_iso (sorted_list_of_set
          {t. Min (set (stamps [Timestamp 1708992000000000000, Timestamp 1709337600000000000,
                  NaT, Timestamp 1708992000000000000])) \<le> t
              \<and> t \<le> Max (set (stamps [Timestamp 1708992000000000000,
                  Timestamp 1709337600000000000, NaT, Timestamp 1708992000000000000]))
              \<and> one_day dvd (t - Min (set (stamps [Timestamp 1708992000000000000,
                  Timestamp 1709337600000000000, NaT, Timestamp 1708992000000000000])))
              \<and> t \<notin> set (stamps [Timestamp 1708992000000000000,
                  Timestamp 1709337600000000000, NaT, Timestamp 1708992000000000000])})"
proof -
  have h1: "\<not> df_empty frame_feb" by code_simp
  have h2: "map_of frame_feb ''Date''
       = Some [Txt ''2024-02-27'', Txt ''2024-03-02'', NaN, Txt ''2024-02-27'']" by code_simp
  have h3: "those (map to_datetime_iso
         [Txt ''2024-02-27'', Txt ''2024-03-02'', NaN, Txt ''2024-02-27''])
       = Some [Timestamp 1708992000000000000, Timestamp 1709337600000000000, NaT,
               Timestamp 1708992000000000000]" by code_simp
  have h4: "stamps [Timestamp 1708992000000000000, Timestamp 1709337600000000000, NaT,
               Timestamp 1708992000000000000] \<noteq> []" by simp
  have v: "check_date_continuity to_datetime_iso strftime_iso frame_feb
       = [''2024-02-28'', ''2024-02-29'', ''2024-03-01'']" by code_simp
  from h1 h2 h3 h4 v
    date_continuity_missing_dates [of frame_feb
      "[Txt ''2024-02-27'', Txt ''2024-03-02'', NaN, Txt ''2024-02-27'']" to_datetime_iso
      "[Timestamp 1708992000000000000, Timestamp 1709337600000000000, NaT,
        Timestamp 1708992000000000000]" strftime_iso]
  show ?thesis by blast
qed

subsection \<open>C6: coverage\<close>

text \<open>
  The claim's words, for comparison with what the code computes: the calendar day of a
  timestamp (days since the epoch), and the number of records whose date lies in an
  inclusive window of calendar days.
\<close>

definition day_of :: "int \<Rightarrow> int" where
  "day_of t = t div one_day"

definition dated_within :: "int \<Rightarrow> int \<Rightarrow> datetime64 list \<Rightarrow> nat" where
  "dated_within first_day last_day ds =
     length (filter (\<lambda>t. first_day \<le> day_of t \<and> day_of t \<le> last_day) (stamps ds))"

text \<open>A complete January 2024: every day with its midnight timestamp, and the dataset
  with 24 records on each of the 31 days.\<close>

definition january_2024 :: "(string \<times> int) list" where
  "january_2024 =
     [(''2024-01-01'', 1704067200000000000), (''2024-01-02'', 1704153600000000000),
      (''2024-01-03'', 1704240000000000000), (''2024-01-04'', 1704326400000000000),
      (''2024-01-05'', 1704412800000000000), (''2024-01-06'', 1704499200000000000),
      (''2024-01-07'', 1704585600000000000), (''2024-01-08'', 1704672000000000000),
      (''2024-01-09'', 1704758400000000000), (''2024-01-10'', 1704844800000000000),
      (''2024-01-11'', 1704931200000000000), (''2024-01-12'', 1705017600000000000),
      (''2024-01-13'', 1705104000000000000), (''2024-01-14'', 1705190400000000000),
      (''2024-01-15'', 1705276800000000000), (''2024-01-16'', 1705363200000000000),
      (''2024-01-17'', 1705449600000000000), (''2024-01-18'', 1705536000000000000),
      (''2024-01-19'', 1705622400000000000), (''2024-01-20'', 1705708800000000000),
      (''2024-01-21'', 1705795200000000000), (''2024-01-22'', 1705881600000000000),
      (''2024-01-23'', 1705968000000000000), (''2024-01-24'', 1706054400000000000),
      (''2024-01-25'', 1706140800000000000), (''2024-01-26'', 1706227200000000000),
      (''2024-01-27'', 1706313600000000000), (''2024-01-28'', 1706400000000000000),
      (''2024-01-29'', 1706486400000000000), (''2024-01-30'', 1706572800000000000),
      (''2024-01-31'', 1706659200000000000)]"

definition full_january :: DataFrame where
  "full_january =
     [(''Date'', concat (map (\<lambda>day. replicate 24 (Txt (fst day))) january_2024)),
      (''Timme'', concat (map (\<lambda>day. map Num [0 .. 23]) january_2024))]"

lemma length_date_range_30: "length (date_range (now - 30 * one_day) now) = 31"
  by (simp add: date_range_def one_day_def)

lemma round_half_even_nonneg: "0 \<le> x \<Longrightarrow> 0 \<le> round_half_even x"
proof -
  assume "0 \<le> x"
  then have "0 \<le> \<lfloor>x\<rfloor>" by simp
  then show ?thesis by (simp add: round_half_even_def Let_def)
qed

lemma round_half_even_le:
  assumes "x \<le> of_int n"
  shows "round_half_even x \<le> n"
proof (cases "\<lfloor>x\<rfloor> = n")
  case True
  then have "of_int n \<le> x" using of_int_floor_le [of x] by simp
  with assms have "x = of_int n" by simp
  then show ?thesis by (simp add: round_half_even_def Let_def)
next
  case False
  from assms have "\<lfloor>x\<rfloor> \<le> n" by (simp add: floor_le_iff)
  with False have "\<lfloor>x\<rfloor> + 1 \<le> n" by simp
  then show ?thesis by (simp add: round_half_even_def Let_def)
qed

lemma date_range_30_nonempty: "date_range (now - 30 * one_day) now \<noteq> []"
  using length_date_range_30 [of now] by (cases "date_range (now - 30 * one_day) now") simp_all

lemma py_round_nonneg: "0 \<le> x \<Longrightarrow> 0 \<le> py_round x 2"
  by (simp add: py_round_def round_half_even_nonneg)

lemma py_round_le_100:
  assumes "x \<le> 100"
  shows "py_round x 2 \<le> 100"
proof -
  from assms have "x * 100 \<le> of_int 10000" by simp
  then have "round_half_even (x * 100) \<le> 10000" by (rule round_half_even_le)
  then have "(of_int (round_half_even (x * 100)) :: rat) \<le> 10000"
    by (metis of_int_le_iff of_int_numeral)
  then show ?thesis by (simp add: py_round_def)
qed

lemma coverage_value:
  assumes "\<not> df_empty df" and "map_of df ''Date'' = Some col"
    and "those (map to_datetime col) = Some ds"
  shows "calculate_coverage to_datetime now 30 df =
     py_round (100 * of_nat (length (filter (in_window (now - 30 * one_day) now) ds))
                 / of_nat ((30 + 1) * 24)) 2"
  using assms
  by (simp add: calculate_coverage_def Let_def length_date_range_30 date_range_30_nonempty)

lemma coverage_unparseable:
  assumes "\<not> df_empty df" and "map_of df ''Date'' = Some col"
    and "those (map to_datetime col) = None"
  shows "calculate_coverage to_datetime now days_back df = 0"
  using assms by (simp add: calculate_coverage_def Let_def)

lemma window_days_int:
  fixes d q D r :: int
  assumes d: "0 < d" and r0: "0 \<le> r" and rd: "r < d" and b: "r = 0 \<or> q \<noteq> D - 30"
  shows "((D * d + r) - 30 * d \<le> q * d \<and> q * d \<le> D * d + r) \<longleftrightarrow> (D - 30 \<le> q \<and> q \<le> D)"
proof -
  have up: "q * d \<le> D * d + r \<longleftrightarrow> q \<le> D"
  proof
    assume h: "q * d \<le> D * d + r"
    show "q \<le> D"
    proof (rule ccontr)
      assume "\<not> q \<le> D"
      then have "D + 1 \<le> q" by simp
      then have "(D + 1) * d \<le> q * d" using d by (simp add: mult_right_mono)
      then have "D * d + d \<le> q * d" by (simp add: algebra_simps)
      with h rd show False by linarith
    qed
  next
    assume "q \<le> D"
    then have "q * d \<le> D * d" using d by (simp add: mult_right_mono)
    with r0 show "q * d \<le> D * d + r" by linarith
  qed
  have lo: "(D * d + r) - 30 * d \<le> q * d \<longleftrightarrow> D - 30 \<le> q"
  proof
    assume h: "(D * d + r) - 30 * d \<le> q * d"
    show "D - 30 \<le> q"
    proof (rule ccontr)
      assume "\<not> D - 30 \<le> q"
      then have "q \<le> D - 31" by simp
      then have "q * d \<le> (D - 31) * d" using d by (simp add: mult_right_mono)
      then have "q * d \<le> D * d - 31 * d" by (simp add: algebra_simps)
      with h r0 d show False by linarith
    qed
  next
    assume h: "D - 30 \<le> q"
    show "(D * d + r) - 30 * d \<le> q * d"
    proof (cases "r = 0")
      case True
      from h have "(D - 30) * d \<le> q * d" using d by (simp add: mult_right_mono)
      then have "D * d - 30 * d \<le> q * d" by (simp add: algebra_simps)
      with True show ?thesis by simp
    next
      case False
      with b h have "D - 29 \<le> q" by simp
      then have "(D - 29) * d \<le> q * d" using d by (simp add: mult_right_mono)
      then have "D * d - 29 * d \<le> q * d" by (simp add: algebra_simps)
      with rd show ?thesis by linarith
    qed
  qed
  from up lo show ?thesis by blast
qed

lemma window_days:
  assumes mid: "one_day dvd t"
    and b: "now mod one_day = 0 \<or> day_of t \<noteq> day_of now - 30"
  shows "(now - 30 * one_day \<le> t \<and> t \<le> now)
     \<longleftrightarrow> (day_of now - 30 \<le> day_of t \<and> day_of t \<le> day_of now)"
proof -
  have t: "day_of t * one_day = t" using mid by (simp add: day_of_def)
  have n: "day_of now * one_day + now mod one_day = now" by (simp add: day_of_def)
  have r0: "0 \<le> now mod one_day" and rd: "now mod one_day < one_day"
    using one_day_pos by simp_all
  from window_days_int [OF one_day_pos r0 rd b]
  show ?thesis by (simp only: t n)
qed

lemma length_filter_in_window:
  "length (filter (in_window a b) ds) = length (filter (\<lambda>t. a \<le> t \<and> t \<le> b) (stamps ds))"
  by (induction ds rule: stamps.induct) (simp_all add: in_window_def)

lemma in_window_dated_within:
  assumes mid: "\<forall>t \<in> set (stamps ds). one_day dvd t"
    and b: "now mod one_day = 0 \<or> (\<forall>t \<in> set (stamps ds). day_of t \<noteq> day_of now - 30)"
  shows "length (filter (in_window (now - 30 * one_day) now) ds)
       = dated_within (day_of now - 30) (day_of now) ds"
proof -
  have "filter (\<lambda>t. now - 30 * one_day \<le> t \<and> t \<le> now) (stamps ds)
      = filter (\<lambda>t. day_of now - 30 \<le> day_of t \<and> day_of t \<le> day_of now) (stamps ds)"
  proof (rule filter_cong [OF refl])
    fix t
    assume t: "t \<in> set (stamps ds)"
    from mid t have m: "one_day dvd t" by blast
    from b t have "now mod one_day = 0 \<or> day_of t \<noteq> day_of now - 30" by blast
    then show "(now - 30 * one_day \<le> t \<and> t \<le> now)
        = (day_of now - 30 \<le> day_of t \<and> day_of t \<le> day_of now)"
      by (rule window_days [OF m])
  qed
  then show ?thesis by (simp add: length_filter_in_window dated_within_def)
qed


lemma those_replicate:
  "f c = Some d \<Longrightarrow> those (map f (replicate n c)) = Some (replicate n d)"
  by (induction n) simp_all

text \<open>
  C6 as stated fails. The value is not confined to \<open>[0, 100]\<close>: 745 records dated inside
  the window give 100.13. And it is not always the rounded ratio: one entry that does not
  convert sends the whole check to its \<open>except\<close> branch, which returns 0 although a record
  lies in the window.
\<close>

theorem coverage_above_100:
  "100 < calculate_coverage to_datetime_iso noon_2024_01_31 30
           [(''Date'', replicate 745 (Txt ''2024-01-15''))]
   \<and> calculate_coverage to_datetime_iso noon_2024_01_31 30
        [(''Date'', [Txt ''2024-01-30'', Txt ''foo''])] = 0
   \<and> to_datetime_iso (Txt ''2024-01-30'') = Some (Timestamp 1706572800000000000)
   \<and> in_window (noon_2024_01_31 - 30 * one_day) noon_2024_01_31 (Timestamp 1706572800000000000)"
proof -
  have c: "to_datetime_iso (Txt ''2024-01-15'') = Some (Timestamp 1705276800000000000)"
    by code_simp
  have w: "in_window (noon_2024_01_31 - 30 * one_day) noon_2024_01_31
             (Timestamp 1705276800000000000)"
    by code_simp
  have ne: "\<not> df_empty [(''Date'', replicate 745 (Txt ''2024-01-15''))]"
    by (simp add: df_empty_def columns_def len_def)
  have "calculate_coverage to_datetime_iso noon_2024_01_31 30
           [(''Date'', replicate 745 (Txt ''2024-01-15''))]
      = py_round (100 * of_nat (length (filter (in_window (noon_2024_01_31 - 30 * one_day)
            noon_2024_01_31) (replicate 745 (Timestamp 1705276800000000000))))
            / of_nat ((30 + 1) * 24)) 2"
    by (rule coverage_value
          [OF ne _ those_replicate [of to_datetime_iso "Txt ''2024-01-15''" _ 745, OF c]]) simp
  also have "\<dots> = py_round (100 * 745 / 744) 2"
    using w by simp
  also have "\<dots> = 10013 / 100" by code_simp
  finally have a: "100 < calculate_coverage to_datetime_iso noon_2024_01_31 30
           [(''Date'', replicate 745 (Txt ''2024-01-15''))]" by simp
  have b: "calculate_coverage to_datetime_iso noon_2024_01_31 30
        [(''Date'', [Txt ''2024-01-30'', Txt ''foo''])] = 0" by code_simp
  have d: "to_datetime_iso (Txt ''2024-01-30'') = Some (Timestamp 1706572800000000000)"
    by code_simp
  have e: "in_window (noon_2024_01_31 - 30 * one_day) noon_2024_01_31
      (Timestamp 1706572800000000000)" by code_simp
  from a b d e show ?thesis by blast
qed

text \<open>
  C6, amended. For \<open>days_back = 30\<close> and a non-empty dataset whose \<open>Date\<close> entries all
  convert to dates (midnight timestamps, \<open>NaT\<close> for a null), and provided that \<open>now\<close> is
  exactly midnight or no record is dated on the first day of the window (the day of
  \<open>now - 30 days\<close>), \<open>calculate_coverage\<close> returns \<open>round(100 * actual / expected, 2)\<close>
  with \<open>expected = (30 + 1) * 24\<close> and \<open>actual\<close> the number of records whose date lies in
  the inclusive window of calendar days from the day of \<open>now - 30 days\<close> to the day of
  \<open>now\<close>; the value is never negative, and it is at most 100 when \<open>actual\<close> does not
  exceed \<open>expected\<close>. If some entry does not convert, or the dataset is empty, the value is
  0 (no division by zero occurs). What happens to records dated on the first day of the
  window when \<open>now\<close> is not midnight is left out of this statement.
\<close>

theorem coverage_formula:
  "(\<not> df_empty df \<and> map_of df ''Date'' = Some col \<and> those (map to_datetime col) = Some ds
      \<and> (\<forall>t \<in> set (stamps ds). one_day dvd t)
      \<and> (now mod one_day = 0 \<or> (\<forall>t \<in> set (stamps ds). day_of t \<noteq> day_of now - 30)) \<longrightarrow>
      calculate_coverage to_datetime now 30 df =
        py_round (100 * of_nat (dated_within (day_of now - 30) (day_of now) ds)
                    / of_nat ((30 + 1) * 24)) 2
      \<and> 0 \<le> calculate_coverage to_datetime now 30 df
      \<and> (dated_within (day_of now - 30) (day_of now) ds \<le> (30 + 1) * 24 \<longrightarrow>
           calculate_coverage to_datetime now 30 df \<le> 100))
   \<and> (\<not> df_empty df \<and> map_of df ''Date'' = Some col \<and> those (map to_datetime col) = None \<longrightarrow>
        calculate_coverage to_datetime now 30 df = 0)
   \<and> (df_empty df \<longrightarrow> calculate_coverage to_datetime now 30 df = 0)"
proof (intro conjI impI)
  assume h: "\<not> df_empty df \<and> map_of df ''Date'' = Some col
      \<and> those (map to_datetime col) = Some ds
      \<and> (\<forall>t \<in> set (stamps ds). one_day dvd t)
      \<and> (now mod one_day = 0 \<or> (\<forall>t \<in> set (stamps ds). day_of t \<noteq> day_of now - 30))"
  define actual where "actual = dated_within (day_of now - 30) (day_of now) ds"
  from h have h1: "\<not> df_empty df" and h2: "map_of df ''Date'' = Some col"
    and h3: "those (map to_datetime col) = Some ds"
    and h4: "\<forall>t \<in> set (stamps ds). one_day dvd t"
    and h5: "now mod one_day = 0 \<or> (\<forall>t \<in> set (stamps ds). day_of t \<noteq> day_of now - 30)"
    by blast+
  have v: "calculate_coverage to_datetime now 30 df
      = py_round (100 * of_nat actual / of_nat ((30 + 1) * 24)) 2"
    unfolding actual_def in_window_dated_within [OF h4 h5, symmetric]
    by (rule coverage_value [OF h1 h2 h3])
  then show "calculate_coverage to_datetime now 30 df =
        py_round (100 * of_nat (dated_within (day_of now - 30) (day_of now) ds)
                    / of_nat ((30 + 1) * 24)) 2"
    by (simp add: actual_def)
  show "0 \<le> calculate_coverage to_datetime now 30 df"
    unfolding v by (rule py_round_nonneg) simp
  assume "dated_within (day_of now - 30) (day_of now) ds \<le> (30 + 1) * 24"
  then have "actual \<le> 744" by (simp add: actual_def)
  then have "(of_nat actual :: rat) \<le> 744" by (metis of_nat_le_iff of_nat_numeral)
  then have "100 * of_nat actual / of_nat ((30 + 1) * 24) \<le> (100 :: rat)" by simp
  then show "calculate_coverage to_datetime now 30 df \<le> 100"
    unfolding v by (rule py_round_le_100)
next
  assume "\<not> df_empty df \<and> map_of df ''Date'' = Some col \<and> those (map to_datetime col) = None"
  then have h1: "\<not> df_empty df" and h2: "map_of df ''Date'' = Some col"
    and h3: "those (map to_datetime col) = None" by blast+
  show "calculate_coverage to_datetime now 30 df = 0"
    by (rule coverage_unparseable [OF h1 h2 h3])
next
  assume "df_empty df"
  then show "calculate_coverage to_datetime now 30 df = 0"
    by (simp add: calculate_coverage_def)
qed

theorem coverage_formula_witness:
  "\<not> df_empty frame_jan
   \<and> map_of frame_jan ''Date''
       = Some [Txt ''2024-01-30'', Txt ''2024-01-30'', Txt ''2023-12-01'', NaN]
   \<and> those (map to_datetime_iso [Txt ''2024-01-30'', Txt ''2024-01-30'', Txt ''2023-12-01'', NaN])
       = Some [Timestamp 1706572800000000000, Timestamp 1706572800000000000,
               Timestamp 1701388800000000000, NaT]
   \<and> stamps [Timestamp 1706572800000000000, Timestamp 1706572800000000000,
             Timestamp 1701388800000000000, NaT]
       = [1706572800000000000, 1706572800000000000, 1701388800000000000]
   \<and> one_day dvd 1706572800000000000 \<and> one_day dvd 1701388800000000000
   \<and> day_of 1706572800000000000 \<noteq> day_of noon_2024_01_31 - 30
   \<and> day_of 1701388800000000000 \<noteq> day_of noon_2024_01_31 - 30
   \<and> dated_within (day_of noon_2024_01_31 - 30) (day_of noon_2024_01_31)
        [Timestamp 1706572800000000000, Timestamp 1706572800000000000,
         Timestamp 1701388800000000000, NaT] = 2
   \<and> calculate_coverage to_datetime_iso noon_2024_01_31 30 frame_jan = 27 / 100
   \<and> calculate_coverage to_datetime_iso noon_2024_01_31 30 frame_jan
       = py_round (100 * of_nat (dated_within (day_of noon_2024_01_31 - 30)
           (day_of noon_2024_01_31)
           [Timestamp 1706572800000000000, Timestamp 1706572800000000000,
            Timestamp 1701388800000000000, NaT]) / of_nat ((30 + 1) * 24)) 2
   \<and> 0 \<le> calculate_coverage to_datetime_iso noon_2024_01_31 30 frame_jan
   \<and> calculate_coverage to_datetime_iso noon_2024_01_31 30 frame_jan \<le> 100"
proof -
  let ?ds = "[Timestamp 1706572800000000000, Timestamp 1706572800000000000,
              Timestamp 1701388800000000000, NaT]"
  have h1: "\<not> df_empty frame_jan" by code_simp
  have h2: "map_of frame_jan ''Date''
       = Some [Txt ''2024-01-30'', Txt ''2024-01-30'', Txt ''2023-12-01'', NaN]" by code_simp
  have h3: "those (map to_datetime_iso
         [Txt ''2024-01-30'', Txt ''2024-01-30'', Txt ''2023-12-01'', NaN]) = Some ?ds"
    by code_simp
  have s: "stamps ?ds = [1706572800000000000, 1706572800000000000, 1701388800000000000]"
    by simp
  have d1: "one_day dvd 1706572800000000000" by code_simp
  have d2: "one_day dvd 1701388800000000000" by code_simp
  have b1: "day_of 1706572800000000000 \<noteq> day_of noon_2024_01_31 - 30" by code_simp
  have b2: "day_of 1701388800000000000 \<noteq> day_of noon_2024_01_31 - 30" by code_simp
  have h4: "\<forall>t \<in> set (stamps ?ds). one_day dvd t" using d1 d2 by (simp add: s)
  have h5: "noon_2024_01_31 mod one_day = 0
      \<or> (\<forall>t \<in> set (stamps ?ds). day_of t \<noteq> day_of noon_2024_01_31 - 30)"
    using b1 b2 by (simp add: s)
  have n: "dated_within (day_of noon_2024_01_31 - 30) (day_of noon_2024_01_31) ?ds = 2"
    by code_simp
  have le: "dated_within (day_of noon_2024_01_31 - 30) (day_of noon_2024_01_31) ?ds
      \<le> (30 + 1) * 24" by (simp add: n)
  have v: "calculate_coverage to_datetime_iso noon_2024_01_31 30 frame_jan = 27 / 100"
    by code_simp
  note hyp = conjI [OF h1 conjI [OF h2 conjI [OF h3 conjI [OF h4 h5]]]]
  note t = coverage_formula [of frame_jan
      "[Txt ''2024-01-30'', Txt ''2024-01-30'', Txt ''2023-12-01'', NaN]" to_datetime_iso
      ?ds noon_2024_01_31, THEN conjunct1, rule_format, OF hyp]
  note t1 = t [THEN conjunct1]
  note t2 = t [THEN conjunct2, THEN conjunct1]
  note t3 = t [THEN conjunct2, THEN conjunct2, rule_format, OF le]
  show ?thesis
    by (intro conjI) (rule h1 h2 h3 s d1 d2 b1 b2 n v t1 t2 t3)+
qed

subsection \<open>The first day of the coverage window\<close>

text \<open>
  The code compares each record's midnight timestamp with \<open>now - 30 days\<close>, time of day
  included. Unless \<open>now\<close> is exactly midnight, the records of the first of the 31
  expected days are therefore never counted: the expected count has 31 days and the filter
  admits 30. A complete January, 24 records on each of its 31 days, scores 96.77 at noon of
  2024-01-31 and 100 at midnight of that day, and a lone record dated 2024-01-01 is not
  counted at noon. This is a defect of the code; the statement above neither promises nor
  denies it.
\<close>

lemma those_concat_replicate:
  assumes "\<forall>d \<in> set days. f (g d) = Some (h d)"
  shows "those (map f (concat (map (\<lambda>d. replicate n (g d)) days)))
       = Some (concat (map (\<lambda>d. replicate n (h d)) days))"
proof -
  have "map (\<lambda>x. the (f x)) (concat (map (\<lambda>d. replicate n (g d)) days))
      = concat (map (\<lambda>d. replicate n (the (f (g d)))) days)"
    by (simp add: map_concat comp_def)
  also have "\<dots> = concat (map (\<lambda>d. replicate n (h d)) days)"
    using assms by (intro arg_cong [where f = concat] map_cong refl) simp
  finally show ?thesis using assms by (auto simp: those_map_Some)
qed

lemma length_filter_concat_replicate:
  "length (filter P (concat (map (\<lambda>d. replicate n (h d)) days)))
     = n * length (filter (\<lambda>d. P (h d)) days)"
  by (induction days) simp_all

lemma january_conv:
  "\<forall>day \<in> set january_2024. to_datetime_iso (Txt (fst day)) = Some (Timestamp (snd day))"
  by code_simp

lemma january_not_empty: "\<not> df_empty full_january"
proof -
  have "january_2024 \<noteq> []" by code_simp
  then obtain day days where e: "january_2024 = day # days" by (cases january_2024) auto
  show ?thesis
    by (simp add: df_empty_def columns_def len_def full_january_def e)
qed

lemma coverage_full_january:
  assumes cnt: "length (filter (\<lambda>day. in_window (now - 30 * one_day) now (Timestamp (snd day)))
                  january_2024) = k"
  shows "calculate_coverage to_datetime_iso now 30 full_january
       = py_round (100 * of_nat (24 * k) / of_nat ((30 + 1) * 24)) 2"
proof -
  have col: "map_of full_january ''Date''
      = Some (concat (map (\<lambda>day. replicate 24 (Txt (fst day))) january_2024))"
    by (simp add: full_january_def)
  note th = those_concat_replicate [of january_2024 to_datetime_iso
      "\<lambda>day. Txt (fst day)" "\<lambda>day. Timestamp (snd day)" 24, OF january_conv]
  show ?thesis
    unfolding coverage_value [OF january_not_empty col th] length_filter_concat_replicate cnt ..
qed

lemma coverage_first_day_dropped:
  "calculate_coverage to_datetime_iso noon_2024_01_31 30 full_january = 9677 / 100
   \<and> calculate_coverage to_datetime_iso (noon_2024_01_31 - 43200000000000) 30 full_january
       = 100
   \<and> calculate_coverage to_datetime_iso noon_2024_01_31 30 [(''Date'', [Txt ''2024-01-01''])]
       = 0
   \<and> strftime_iso (noon_2024_01_31 - 30 * one_day) = ''2024-01-01''"
proof -
  have k1: "length (filter (\<lambda>day. in_window (noon_2024_01_31 - 30 * one_day) noon_2024_01_31
                (Timestamp (snd day))) january_2024) = 30" by code_simp
  have k2: "length (filter (\<lambda>day. in_window (noon_2024_01_31 - 43200000000000 - 30 * one_day)
                (noon_2024_01_31 - 43200000000000) (Timestamp (snd day))) january_2024) = 31"
    by code_simp
  have r1: "py_round (100 * of_nat (24 * 30) / of_nat ((30 + 1) * 24)) 2 = 9677 / 100"
    by code_simp
  have r2: "py_round (100 * of_nat (24 * 31) / of_nat ((30 + 1) * 24)) 2 = 100"
    by code_simp
  have a: "calculate_coverage to_datetime_iso noon_2024_01_31 30 full_january = 9677 / 100"
    unfolding coverage_full_january [OF k1] by (rule r1)
  have b: "calculate_coverage to_datetime_iso (noon_2024_01_31 - 43200000000000) 30
      full_january = 100"
    unfolding coverage_full_january [OF k2] by (rule r2)
  have c: "calculate_coverage to_datetime_iso noon_2024_01_31 30
      [(''Date'', [Txt ''2024-01-01''])] = 0" by code_simp
  have d: "strftime_iso (noon_2024_01_31 - 30 * one_day) = ''2024-01-01''" by code_simp
  show ?thesis by (intro conjI) (rule a b c d)+
qed

section \<open>DataQualityChecker: \<open>run_all_checks\<close>, \<open>save_reports\<close> and \<open>main\<close>\<close>

text \<open>
  The entries of \<open>checks_passed\<close> and \<open>checks_failed\<close> are formatted strings in the
  source (\<open>"No data found"\<close>, \<open>f"Missing {n} dates"\<close>, \<open>"Date continuity"\<close>, ...); here each
  is a constructor carrying the formatted number.
\<close>

datatype check_message =
    NoDataFound
  | MissingDates nat
  | DateContinuity
  | FoundDuplicates nat
  | NoDuplicates
  | MissingValuesDetected
  | NoMissingValues
  | IncompleteDays nat
  | NoDataGaps
  | LowCoverage rat
  | GoodCoverage rat

text \<open>
  The dictionary \<open>self.metrics\<close>. The entry \<open>value_ranges\<close> (minimum, maximum, mean and
  standard deviation of the measurement columns, in floats) is left out: it is computed
  per column inside its own \<open>try\<close> block and never touches \<open>issues_found\<close> or the two
  lists of checks.
\<close>

record metrics =
  total_records :: nat
  date_range_of :: "(cell \<times> cell) option"
  missing_dates :: "string list"
  duplicate_records :: nat
  missing_values :: "(string \<times> nat) list"
  data_gaps :: "gap list"
  coverage_percentage :: rat
  issues_found :: bool
  checks_passed :: "check_message list"
  checks_failed :: "check_message list"


















subsection \<open>C8: reports and exit status\<close>







end
